theory Spec2Isabelle
  imports Complex_Main "HOL-Library.AList"
begin

section \<open>Data model (shared schema)\<close>

text \<open>
  The interfaces of the shared schema. Several interfaces have fields called
  \<open>id\<close>, \<open>title\<close>, \<open>description\<close> and \<open>estimatedDuration\<close>; the records
  prefix them with the initial of the interface (\<open>v\<close> for VideoModule, \<open>b\<close> for
  RoadmapBranch, \<open>r\<close> for Roadmap, \<open>m\<close> for MergedRoadmap, \<open>p\<close> for the preview
  object). An optional field is an \<open>option\<close>.

  Durations are numbers of seconds and are modelled as integers; the sums and the
  difference the handlers take of them are then exact.
\<close>

record VideoModule =
  v_id :: string
  v_title :: string
  duration :: int
  isCore :: bool
  v_description :: "string option"

record RoadmapBranch =
  b_id :: string
  b_title :: string
  b_description :: "string option"
  videos :: "VideoModule list"
  b_estimatedDuration :: int

record Roadmap =
  r_id :: string
  r_title :: string
  r_description :: "string option"
  r_estimatedDuration :: int
  branches :: "RoadmapBranch list"
  userId :: string
  createdAt :: string
  updatedAt :: string

text \<open>
  A calendar entry is the video with two more fields, added by object spread:
  \<open>{...video, branch_title}\<close> when the videos are flattened and
  \<open>{...video, scheduled_time}\<close> when a video is placed on a day.
\<close>

record TaggedVideo = VideoModule +
  branch_title :: string

record CalendarEvent = TaggedVideo +
  scheduled_time :: string

section \<open>JavaScript numbers that are not finite\<close>

text \<open>
  The efficiency statistic is the only place where the handlers divide. A division by
  zero does not raise in JavaScript: it yields \<open>NaN\<close> or an infinity, and
  \<open>Math.round\<close> and \<open>||\<close> act on those values. Finite values are kept as exact
  rationals: where the exact hundredfold of the quotient ends in one half, the
  floating-point product may fall just below it and round to the integer below.
\<close>

datatype jsnum = Num rat | PosInfinity | NegInfinity | NaN

definition js_div :: "int \<Rightarrow> int \<Rightarrow> jsnum" where
  "js_div a b =
     (if b \<noteq> 0 then Num (of_int a / of_int b)
      else if a = 0 then NaN
      else if 0 < a then PosInfinity
      else NegInfinity)"

fun js_times :: "jsnum \<Rightarrow> rat \<Rightarrow> jsnum" where
  "js_times (Num q) k = Num (q * k)"
| "js_times PosInfinity k = (if 0 < k then PosInfinity else if k < 0 then NegInfinity else NaN)"
| "js_times NegInfinity k = (if 0 < k then NegInfinity else if k < 0 then PosInfinity else NaN)"
| "js_times NaN k = NaN"

text \<open>\<open>Math.round\<close> rounds to the nearest integer, a half towards plus infinity.\<close>

fun Math_round :: "jsnum \<Rightarrow> jsnum" where
  "Math_round (Num q) = Num (of_int \<lfloor>q + 1 / 2\<rfloor>)"
| "Math_round PosInfinity = PosInfinity"
| "Math_round NegInfinity = NegInfinity"
| "Math_round NaN = NaN"

text \<open>\<open>x || 0\<close>: the falsy numbers are zero and \<open>NaN\<close>.\<close>

fun or_zero :: "jsnum \<Rightarrow> jsnum" where
  "or_zero (Num q) = (if q = 0 then Num 0 else Num q)"
| "or_zero NaN = Num 0"
| "or_zero PosInfinity = PosInfinity"
| "or_zero NegInfinity = NegInfinity"

section \<open>Array and string helpers\<close>

text \<open>\<open>Array.prototype.findIndex\<close>: the first index whose element satisfies the
  predicate, \<open>-1\<close> when there is none.\<close>

fun findIndex :: "('a \<Rightarrow> bool) \<Rightarrow> 'a list \<Rightarrow> int" where
  "findIndex P [] = - 1"
| "findIndex P (x # xs) =
     (if P x then 0
      else (let i = findIndex P xs in if i < 0 then - 1 else i + 1))"

text \<open>\<open>Array.prototype.filter\<close> with a callback that also takes the index.\<close>

definition filter_indexed :: "('a \<Rightarrow> nat \<Rightarrow> bool) \<Rightarrow> 'a list \<Rightarrow> 'a list" where
  "filter_indexed f xs =
     map fst (filter (\<lambda>(x, i). f x i) (zip xs [0 ..< length xs]))"

text \<open>\<open>Array.prototype.join\<close>.\<close>

fun join :: "string \<Rightarrow> string list \<Rightarrow> string" where
  "join sep [] = []"
| "join sep [s] = s"
| "join sep (s # t # ts) = s @ sep @ join sep (t # ts)"

text \<open>The decimal rendering of a length inside a template literal.\<close>

fun digits :: "nat \<Rightarrow> string" where
  "digits n =
     (if n < 10 then [char_of (48 + n)]
      else digits (n div 10) @ [char_of (48 + n mod 10)])"

section \<open>Storage\<close>

text \<open>\<open>MemStorage\<close> keeps each kind of entity in a \<open>Map\<close> from its id;
  \<open>getRoadmap\<close> is the lookup, \<open>undefined\<close> being \<open>None\<close>. The calendar of a
  merged roadmap has the UTC day number as its key (see the section on the clock), and
  \<open>createdAt\<close> of a merged roadmap is kept as the instant in milliseconds, of which
  the source stores the ISO rendering.\<close>

record MergedRoadmap =
  m_id :: string
  m_title :: string
  m_description :: string
  m_estimatedDuration :: int
  m_branches :: "RoadmapBranch list"
  mergedFrom :: "string list"
  calendar :: "(int \<times> CalendarEvent list) list option"
  m_userId :: string
  m_createdAt :: int

record MemStorage =
  roadmaps :: "string \<rightharpoonup> Roadmap"
  mergedRoadmaps :: "string \<rightharpoonup> MergedRoadmap"

definition getRoadmap :: "MemStorage \<Rightarrow> string \<Rightarrow> Roadmap option" where
  "getRoadmap storage ident = roadmaps storage ident"

section \<open>The merge preview\<close>

record Preview =
  p_id :: string
  p_title :: string
  p_description :: string
  p_estimatedDuration :: int
  p_branches :: "RoadmapBranch list"

record Statistics =
  original_roadmaps :: nat
  original_duration :: int
  final_duration :: int
  duration_saved :: int
  original_branches :: nat
  final_branches :: nat
  efficiency_gain :: jsnum

record PreviewBody =
  preview :: Preview
  statistics :: Statistics

text \<open>A response is what \<open>c.json(body, status)\<close> sends; without a status argument
  the status is 200.\<close>

record 'a response =
  status :: nat
  body :: 'a

text \<open>\<open>roadmaps.filter(Boolean)\<close> after the lookups: the ids that resolve, in the
  order of the request.\<close>

definition validRoadmaps :: "MemStorage \<Rightarrow> string list \<Rightarrow> Roadmap list" where
  "validRoadmaps storage roadmap_ids = List.map_filter (getRoadmap storage) roadmap_ids"

definition totalDuration :: "Roadmap list \<Rightarrow> int" where
  "totalDuration rs = foldl (\<lambda>sum r. sum + r_estimatedDuration r) 0 rs"

definition allBranches :: "Roadmap list \<Rightarrow> RoadmapBranch list" where
  "allBranches rs = concat (map branches rs)"

definition uniqueBranches :: "RoadmapBranch list \<Rightarrow> RoadmapBranch list" where
  "uniqueBranches bs =
     filter_indexed
       (\<lambda>branch index. findIndex (\<lambda>b. b_title b = b_title branch) bs = int index) bs"

definition optimizedDuration :: "RoadmapBranch list \<Rightarrow> int" where
  "optimizedDuration bs = foldl (\<lambda>sum b. sum + b_estimatedDuration b) 0 bs"

text \<open>The body of the preview handler after the lookups: everything it computes from
  the resolved roadmaps.\<close>

definition merge_preview :: "Roadmap list \<Rightarrow> PreviewBody" where
  "merge_preview rs =
     (let total = totalDuration rs;
          alls = allBranches rs;
          uniq = uniqueBranches alls;
          optimized = optimizedDuration uniq;
          durationSaved = total - optimized
      in \<lparr> preview = \<lparr> p_id = ''preview'',
                        p_title = ''Merged: '' @ join '' + '' (map r_title rs),
                        p_description =
                          ''Intelligent merge of '' @ digits (length rs) @ '' learning tracks'',
                        p_estimatedDuration = optimized,
                        p_branches = uniq \<rparr>,
           statistics = \<lparr> original_roadmaps = length rs,
                           original_duration = total,
                           final_duration = optimized,
                           duration_saved = durationSaved,
                           original_branches = length alls,
                           final_branches = length uniq,
                           efficiency_gain =
                             or_zero (Math_round (js_times (js_div durationSaved total) 100)) \<rparr> \<rparr>)"

text \<open>\<open>POST /api/v1/roadmap/merge/preview\<close>. The handler has no branch that answers
  with an error status.\<close>

definition preview_handler :: "MemStorage \<Rightarrow> string list \<Rightarrow> PreviewBody response" where
  "preview_handler storage roadmap_ids =
     \<lparr> status = 200, body = merge_preview (validRoadmaps storage roadmap_ids) \<rparr>"

section \<open>The clock\<close>

text \<open>
  The scheduler reads the clock once (\<open>new Date()\<close>) and then uses two views of each
  day it visits: \<open>getDay()\<close>, the day of the week in the local time zone of the
  process, and \<open>toISOString()\<close>, whose date part is the calendar date in UTC.
  The clock is the instant in milliseconds since the epoch and the offset of local
  time from UTC in minutes (local = UTC + offset; \<open>-300\<close> for New York in winter).
  The offset is taken to be the same on all the days visited, so \<open>setDate\<close> with
  one more day moves the instant by exactly 24 hours.

  A calendar date is kept as its day number, the days since 1970-01-01, which was a
  Thursday: day \<open>n\<close> is weekday \<open>(n + 4) mod 7\<close>, Sunday being 0 and Saturday 6.
  The key of a calendar entry is the ISO rendering \<open>YYYY-MM-DD\<close> of a UTC day; the
  rendering is one-to-one on days, and the model keeps the day number as the key.
\<close>

record Clock =
  now_ms :: int
  utc_offset_min :: int

definition weekday :: "int \<Rightarrow> int" where
  "weekday n = (n + 4) mod 7"

definition local_day :: "Clock \<Rightarrow> nat \<Rightarrow> int" where
  "local_day clock dayOffset =
     (now_ms clock + int dayOffset * 86400000 + utc_offset_min clock * 60000) div 86400000"

definition getDay :: "Clock \<Rightarrow> nat \<Rightarrow> int" where
  "getDay clock dayOffset = weekday (local_day clock dayOffset)"

definition dateStr :: "Clock \<Rightarrow> nat \<Rightarrow> int" where
  "dateStr clock dayOffset = (now_ms clock + int dayOffset * 86400000) div 86400000"

section \<open>The scheduler\<close>

text \<open>
  \<open>generateAutoSchedule(roadmap, dailyHours)\<close>. The number of hours is a rational and
  \<open>dailySeconds = dailyHours * 3600\<close> is computed exactly; the loop compares the
  integer \<open>dailyDuration\<close> with it. The two loops take \<open>dailySeconds\<close> as a
  parameter, and their invariants are proved for every rational value of it.
\<close>

definition tagged :: "string \<Rightarrow> VideoModule \<Rightarrow> TaggedVideo" where
  "tagged t video =
     \<lparr> v_id = v_id video, v_title = v_title video, duration = duration video,
       isCore = isCore video, v_description = v_description video,
       branch_title = t \<rparr>"

definition scheduled :: "TaggedVideo \<Rightarrow> CalendarEvent" where
  "scheduled video =
     \<lparr> v_id = v_id video, v_title = v_title video, duration = duration video,
       isCore = isCore video, v_description = v_description video,
       branch_title = branch_title video, scheduled_time = ''09:00'' \<rparr>"

text \<open>
  \<open>Array.prototype.sort\<close> with a comparator is a stable sort (ECMAScript 2019). It is
  modelled as insertion sort from the right: an element goes before the first element
  it does not compare greater than, so elements that compare equal keep their order.
\<close>

fun insert_by :: "('a \<Rightarrow> 'a \<Rightarrow> int) \<Rightarrow> 'a \<Rightarrow> 'a list \<Rightarrow> 'a list" where
  "insert_by cmp x [] = [x]"
| "insert_by cmp x (y # ys) =
     (if cmp x y \<le> 0 then x # y # ys else y # insert_by cmp x ys)"

definition sort_by :: "('a \<Rightarrow> 'a \<Rightarrow> int) \<Rightarrow> 'a list \<Rightarrow> 'a list" where
  "sort_by cmp xs = foldr (insert_by cmp) xs []"

definition core_first :: "TaggedVideo \<Rightarrow> TaggedVideo \<Rightarrow> int" where
  "core_first a b = (if isCore b then 1 else 0) - (if isCore a then 1 else 0)"

definition flatVideos :: "RoadmapBranch list \<Rightarrow> TaggedVideo list" where
  "flatVideos bs = concat (map (\<lambda>branch. map (tagged (b_title branch)) (videos branch)) bs)"

definition allVideos :: "Preview \<Rightarrow> TaggedVideo list" where
  "allVideos roadmap = sort_by core_first (flatVideos (p_branches roadmap))"

type_synonym calendar = "(int \<times> CalendarEvent list) list"

text \<open>The inner loop fills one day. Its state is \<open>videoIndex\<close>, \<open>dailyVideos\<close> and
  \<open>dailyDuration\<close>.\<close>

function dailyLoop ::
  "TaggedVideo list \<Rightarrow> rat \<Rightarrow> nat \<Rightarrow> CalendarEvent list \<Rightarrow> int
     \<Rightarrow> nat \<times> CalendarEvent list \<times> int" where
  "dailyLoop vids dailySeconds videoIndex dailyVideos dailyDuration =
     (if videoIndex < length vids \<and> of_int dailyDuration < dailySeconds then
        (let video = vids ! videoIndex in
           if of_int (dailyDuration + duration video) \<le> dailySeconds then
             dailyLoop vids dailySeconds
               (videoIndex + 1) (dailyVideos @ [scheduled video]) (dailyDuration + duration video)
           else (videoIndex, dailyVideos, dailyDuration))
      else (videoIndex, dailyVideos, dailyDuration))"
  by pat_completeness auto
termination
  by (relation "measure (\<lambda>(vids, dailySeconds, videoIndex, dailyVideos, dailyDuration).
        length vids - videoIndex)") auto

text \<open>The outer loop visits the days. Its state is \<open>videoIndex\<close>, \<open>dayOffset\<close> and the
  calendar; \<open>calendar[dateStr] = dailyVideos\<close> replaces the entry of a key that is
  present and appends a new key otherwise.\<close>

function scheduleLoop ::
  "Clock \<Rightarrow> TaggedVideo list \<Rightarrow> rat \<Rightarrow> nat \<Rightarrow> nat \<Rightarrow> calendar
     \<Rightarrow> nat \<times> nat \<times> calendar" where
  "scheduleLoop clock vids dailySeconds videoIndex dayOffset cal =
     (if videoIndex < length vids \<and> dayOffset < 30 then
        (if getDay clock dayOffset = 0 \<or> getDay clock dayOffset = 6 then
           scheduleLoop clock vids dailySeconds videoIndex (dayOffset + 1) cal
         else
           (case dailyLoop vids dailySeconds videoIndex [] 0 of
              (videoIndex', dailyVideos, dailyDuration) \<Rightarrow>
                scheduleLoop clock vids dailySeconds videoIndex' (dayOffset + 1)
                  (if length dailyVideos > 0
                   then AList.update (dateStr clock dayOffset) dailyVideos cal
                   else cal)))
      else (videoIndex, dayOffset, cal))"
  by pat_completeness auto
termination
  by (relation "measure (\<lambda>(clock, vids, dailySeconds, videoIndex, dayOffset, cal).
        30 - dayOffset)") auto

definition generateAutoSchedule :: "Clock \<Rightarrow> Preview \<Rightarrow> rat \<Rightarrow> calendar" where
  "generateAutoSchedule clock roadmap dailyHours =
     (let dailySeconds = dailyHours * 3600
      in snd (snd (scheduleLoop clock (allVideos roadmap) dailySeconds 0 0 [])))"

section \<open>The merge handler\<close>

text \<open>
  The request body of \<open>POST /api/v1/roadmap/merge\<close>. \<open>daily_study_hours\<close> is a JSON
  number or is absent (\<open>None\<close>); \<open>calendar_view\<close> is a JSON boolean.
\<close>

record MergeRequest =
  roadmap_ids :: "string list"
  schedule_mode :: string
  calendar_view :: bool
  daily_study_hours :: "rat option"

record MergeBody =
  merged_roadmap :: MergedRoadmap
  source_count :: nat
  mb_schedule_mode :: string
  calendar_enabled :: bool

text \<open>\<open>daily_study_hours || 1.0\<close>: an absent value and zero are falsy.\<close>

definition hours_or_default :: "rat option \<Rightarrow> rat" where
  "hours_or_default h = (case h of None \<Rightarrow> 1 | Some x \<Rightarrow> if x = 0 then 1 else x)"

text \<open>The argument with which the handler calls \<open>generateAutoSchedule\<close>, \<open>None\<close> when
  it does not call it.\<close>

definition schedule_call :: "MergeRequest \<Rightarrow> rat option" where
  "schedule_call req =
     (if schedule_mode req = ''auto'' \<and> calendar_view req
      then Some (hours_or_default (daily_study_hours req))
      else None)"

definition createMergedRoadmap ::
  "Clock \<Rightarrow> MemStorage \<Rightarrow> Preview \<Rightarrow> string list \<Rightarrow> calendar option
     \<Rightarrow> MergedRoadmap \<times> MemStorage" where
  "createMergedRoadmap clock storage p ids cal =
     (let roadmap = \<lparr> m_id = ''merged_'' @ digits (nat (now_ms clock)),
                       m_title = p_title p,
                       m_description = p_description p,
                       m_estimatedDuration = p_estimatedDuration p,
                       m_branches = p_branches p,
                       mergedFrom = ids,
                       calendar = cal,
                       m_userId = ''demo_user'',
                       m_createdAt = now_ms clock \<rparr>
      in (roadmap,
          storage\<lparr> mergedRoadmaps := (mergedRoadmaps storage)(m_id roadmap \<mapsto> roadmap) \<rparr>))"

text \<open>\<open>POST /api/v1/roadmap/merge\<close>: the preview of the ids, the calendar when asked
  for, one write to the storage, and the answer. As in the preview handler, no branch
  answers with an error status.\<close>

definition merge_handler ::
  "Clock \<Rightarrow> MemStorage \<Rightarrow> MergeRequest \<Rightarrow> MergeBody response \<times> MemStorage" where
  "merge_handler clock storage req =
     (let p = preview (body (preview_handler storage (roadmap_ids req)));
          cal = map_option (generateAutoSchedule clock p) (schedule_call req);
          (mergedRoadmap, storage') =
             createMergedRoadmap clock storage p (roadmap_ids req) cal
      in (\<lparr> status = 200,
             body = \<lparr> merged_roadmap = mergedRoadmap,
                      source_count = length (roadmap_ids req),
                      mb_schedule_mode = schedule_mode req,
                      calendar_enabled = calendar_view req \<rparr> \<rparr>,
          storage'))"

section \<open>The deduplication as the specification words it\<close>

text \<open>
  One scan over the concatenated branches that remembers the titles seen so far and
  keeps a branch exactly when its title has not been seen; titles are compared as they
  are, character by character.
\<close>

fun first_occurrences :: "string list \<Rightarrow> RoadmapBranch list \<Rightarrow> RoadmapBranch list" where
  "first_occurrences seen [] = []"
| "first_occurrences seen (b # bs) =
     (if b_title b \<in> set seen then first_occurrences seen bs
      else b # first_occurrences (b_title b # seen) bs)"

definition client_error :: "'a response \<Rightarrow> bool" where
  "client_error r = (400 \<le> status r \<and> status r < 500)"

section \<open>The packing as the specification words it\<close>

text \<open>
  The eligible days are the days among the 30 from today that are neither a Saturday
  nor a Sunday. A day takes units, in order, while the accumulated duration plus the
  next unit's duration is at most the budget. The plan walks the eligible days: a day
  that takes at least one unit gets an entry with the units it takes, the units that
  remain go to the following eligible days, and the plan ends when no unit or no day
  is left.
\<close>

definition eligible_days :: "Clock \<Rightarrow> nat list" where
  "eligible_days clock = filter (\<lambda>d. getDay clock d \<noteq> 0 \<and> getDay clock d \<noteq> 6) [0 ..< 30]"

fun day_take :: "rat \<Rightarrow> int \<Rightarrow> TaggedVideo list \<Rightarrow> nat" where
  "day_take B acc [] = 0"
| "day_take B acc (v # vs) =
     (if of_int (acc + duration v) \<le> B then Suc (day_take B (acc + duration v) vs) else 0)"

fun greedy_plan :: "Clock \<Rightarrow> rat \<Rightarrow> TaggedVideo list \<Rightarrow> nat list \<Rightarrow> calendar" where
  "greedy_plan clock B [] ds = []"
| "greedy_plan clock B (v # vs) [] = []"
| "greedy_plan clock B (v # vs) (d # ds) =
     (let n = day_take B 0 (v # vs)
      in if n = 0 then greedy_plan clock B (v # vs) ds
         else (dateStr clock d, map scheduled (take n (v # vs)))
                # greedy_plan clock B (drop n (v # vs)) ds)"


section \<open>Sample data\<close>

definition video :: "string \<Rightarrow> int \<Rightarrow> bool \<Rightarrow> VideoModule" where
  "video t d c =
     \<lparr> v_id = t, v_title = t, duration = d, isCore = c, v_description = None \<rparr>"

definition branch :: "string \<Rightarrow> int \<Rightarrow> VideoModule list \<Rightarrow> RoadmapBranch" where
  "branch t d vs =
     \<lparr> b_id = t, b_title = t, b_description = None, videos = vs, b_estimatedDuration = d \<rparr>"

definition roadmap :: "string \<Rightarrow> int \<Rightarrow> RoadmapBranch list \<Rightarrow> Roadmap" where
  "roadmap t d bs =
     \<lparr> r_id = t, r_title = t, r_description = None, r_estimatedDuration = d,
       branches = bs, userId = ''demo_user'', createdAt = ''2026-01-01T00:00:00.000Z'',
       updatedAt = ''2026-01-01T00:00:00.000Z'' \<rparr>"

text \<open>The two roadmaps of the specification's scenario, and a third with other titles
  (one of them differing from \<open>Fundamentals\<close> in case only).\<close>

definition R1 :: Roadmap where
  "R1 = roadmap ''R1'' 3600
          [branch ''Fundamentals'' 3600 [video ''a'' 1800 True, video ''b'' 1800 False]]"

definition R2 :: Roadmap where
  "R2 = roadmap ''R2'' 5400
          [branch ''Fundamentals'' 3600 [video ''c'' 3600 True],
           branch ''Advanced'' 1800 [video ''d'' 1800 False]]"

definition R3 :: Roadmap where
  "R3 = roadmap ''R3'' 2700
          [branch ''fundamentals'' 900 [video ''e'' 900 True],
           branch ''Practice'' 1800 [video ''f'' 1800 False]]"

text \<open>Roadmaps whose own \<open>estimatedDuration\<close> is not the sum of their branches'.\<close>

definition R_drift :: Roadmap where
  "R_drift = roadmap ''Learning Path'' 7200 [branch ''Fundamentals'' 3600 []]"

definition R_zero :: Roadmap where
  "R_zero = roadmap ''Draft'' 0 [branch ''Fundamentals'' 3600 []]"

definition empty_storage :: MemStorage where
  "empty_storage = \<lparr> roadmaps = Map.empty, mergedRoadmaps = Map.empty \<rparr>"

text \<open>A preview with given branches, as the scheduler receives it.\<close>

definition preview_of :: "RoadmapBranch list \<Rightarrow> Preview" where
  "preview_of bs =
     \<lparr> p_id = ''preview'', p_title = ''Merged: sample'',
       p_description = ''Intelligent merge of 1 learning tracks'',
       p_estimatedDuration = sum_list (map b_estimatedDuration bs), p_branches = bs \<rparr>"

text \<open>Two clocks. The first is Friday 2026-11-06, 09:00 UTC, on a machine whose local time
  is UTC. The second is the instant 2026-11-07T01:00:00Z on a machine five hours behind
  UTC: there it is Friday 2026-11-06, 20:00.\<close>

definition clock_utc :: Clock where
  "clock_utc = \<lparr> now_ms = 1793955600000, utc_offset_min = 0 \<rparr>"

definition clock_ny :: Clock where
  "clock_ny = \<lparr> now_ms = 1794013200000, utc_offset_min = - 300 \<rparr>"

text \<open>The specification's scheduling scenario: one branch with three core units of 1800
  seconds.\<close>

definition p_three :: Preview where
  "p_three = preview_of
     [branch ''Basics'' 5400
        [video ''a'' 1800 True, video ''b'' 1800 True, video ''c'' 1800 True]]"

definition p_mixed :: Preview where
  "p_mixed = preview_of
     [branch ''B'' 5400 [video ''a'' 1800 False, video ''b'' 1800 True, video ''c'' 1800 False],
      branch ''C'' 5400 [video ''d'' 1800 False, video ''e'' 1800 True, video ''f'' 1800 True]]"

text \<open>More than 30 days of half an hour; a unit longer than a day of one hour; and a
  unit of negative duration before such a unit.\<close>

definition p_big :: Preview where
  "p_big = preview_of
     [branch ''Long'' 63600
        [video ''a'' 1800 True, video ''b'' 1800 True, video ''c'' 60000 True]]"

definition p_blocked :: Preview where
  "p_blocked = preview_of
     [branch ''Basics'' 9000
        [video ''a'' 1800 True, video ''b'' 5400 True, video ''c'' 1800 True]]"

definition p_negative :: Preview where
  "p_negative = preview_of
     [branch ''Basics'' 3600 [video ''a'' (- 1800) True, video ''b'' 5400 True]]"

text \<open>A storage with the two roadmaps of the scenario, and two merge requests: one with a
  negative number of hours, one of whose ids only one resolves.\<close>

definition sample_storage :: MemStorage where
  "sample_storage = \<lparr> roadmaps = [''R1'' \<mapsto> R1, ''R2'' \<mapsto> R2], mergedRoadmaps = Map.empty \<rparr>"

definition req_negative :: MergeRequest where
  "req_negative = \<lparr> roadmap_ids = [''R1'', ''R2''], schedule_mode = ''auto'',
                     calendar_view = True, daily_study_hours = Some (- 1) \<rparr>"

definition req_single :: MergeRequest where
  "req_single = \<lparr> roadmap_ids = [''R1'', ''missing''], schedule_mode = ''none'',
                   calendar_view = False, daily_study_hours = Some 1 \<rparr>"

text \<open>The equations of the two loops are used one step at a time.\<close>

declare dailyLoop.simps [simp del] scheduleLoop.simps [simp del]

section \<open>Properties of the merge preview\<close>

lemma foldl_plus_sum_list:
  "foldl (\<lambda>sum x. sum + f x) (a::int) xs = a + sum_list (map f xs)"
  by (induction xs arbitrary: a) auto

lemma totalDuration_sum: "totalDuration rs = sum_list (map r_estimatedDuration rs)"
  by (simp add: totalDuration_def foldl_plus_sum_list)

lemma optimizedDuration_sum: "optimizedDuration bs = sum_list (map b_estimatedDuration bs)"
  by (simp add: optimizedDuration_def foldl_plus_sum_list)

lemma sum_list_allBranches:
  "\<forall>r\<in>set rs. r_estimatedDuration r = sum_list (map b_estimatedDuration (branches r)) \<Longrightarrow>
     sum_list (map r_estimatedDuration rs) = sum_list (map b_estimatedDuration (allBranches rs))"
  by (induction rs) (auto simp: allBranches_def)

lemma findIndex_iff:
  "findIndex P xs = int i \<longleftrightarrow> i < length xs \<and> P (xs ! i) \<and> (\<forall>j<i. \<not> P (xs ! j))"
proof (induction xs arbitrary: i)
  case Nil
  then show ?case by simp
next
  case (Cons x xs)
  show ?case
  proof (cases "P x")
    case True
    then show ?thesis by (cases i) auto
  next
    case False
    show ?thesis
    proof (cases i)
      case 0
      with False show ?thesis by (auto simp: Let_def)
    next
      case (Suc k)
      have "findIndex P (x # xs) = int (Suc k) \<longleftrightarrow> findIndex P xs = int k"
        using False by (auto simp: Let_def)
      also have "\<dots> \<longleftrightarrow> k < length xs \<and> P (xs ! k) \<and> (\<forall>j<k. \<not> P (xs ! j))"
        by (rule Cons.IH)
      also have "\<dots> \<longleftrightarrow> Suc k < length (x # xs) \<and> P ((x # xs) ! Suc k)
                          \<and> (\<forall>j<Suc k. \<not> P ((x # xs) ! j))"
        using False by (auto simp: less_Suc_eq_0_disj)
      finally show ?thesis using Suc by simp
    qed
  qed
qed

lemma first_occurrences_cong:
  "set s1 = set s2 \<Longrightarrow> first_occurrences s1 bs = first_occurrences s2 bs"
proof (induction bs arbitrary: s1 s2)
  case Nil
  show ?case by simp
next
  case (Cons b bs)
  have "first_occurrences (b_title b # s1) bs = first_occurrences (b_title b # s2) bs"
    by (rule Cons.IH) (simp add: Cons.prems)
  moreover have "first_occurrences s1 bs = first_occurrences s2 bs"
    by (rule Cons.IH) (rule Cons.prems)
  ultimately show ?case using Cons.prems by simp
qed

text \<open>The filter over the part of the array after a prefix \<open>pre\<close>, whose titles are
  the titles seen.\<close>

lemma scan_suffix:
  "map fst (filter (\<lambda>(b, i). \<forall>j<i. b_title ((pre @ bs) ! j) \<noteq> b_title b)
              (zip bs [length pre ..< length pre + length bs]))
   = first_occurrences (map b_title pre) bs"
proof (induction bs arbitrary: pre)
  case Nil
  show ?case by simp
next
  case (Cons b bs)
  have range: "[length pre ..< length pre + length (b # bs)]
                 = length pre # [length (pre @ [b]) ..< length (pre @ [b]) + length bs]"
    using upt_conv_Cons [of "length pre" "length pre + length (b # bs)"] by simp
  have app: "pre @ b # bs = (pre @ [b]) @ bs" by simp
  have head: "(\<forall>j<length pre. b_title ((pre @ b # bs) ! j) \<noteq> b_title b)
                \<longleftrightarrow> b_title b \<notin> set (map b_title pre)"
  proof
    assume a: "\<forall>j<length pre. b_title ((pre @ b # bs) ! j) \<noteq> b_title b"
    show "b_title b \<notin> set (map b_title pre)"
    proof
      assume "b_title b \<in> set (map b_title pre)"
      then obtain j where "j < length pre" "b_title (pre ! j) = b_title b"
        by (auto simp: in_set_conv_nth)
      with a show False by (simp add: nth_append)
    qed
  next
    assume nin: "b_title b \<notin> set (map b_title pre)"
    have "b_title ((pre @ b # bs) ! j) \<noteq> b_title b" if j: "j < length pre" for j
    proof -
      from j have "b_title (pre ! j) \<in> set (map b_title pre)" by simp
      with nin have "b_title (pre ! j) \<noteq> b_title b" by metis
      with j show ?thesis by (simp add: nth_append)
    qed
    then show "\<forall>j<length pre. b_title ((pre @ b # bs) ! j) \<noteq> b_title b"
      by blast
  qed
  have tail: "map fst (filter (\<lambda>(c, i). \<forall>j<i. b_title ((pre @ b # bs) ! j) \<noteq> b_title c)
              (zip bs [length (pre @ [b]) ..< length (pre @ [b]) + length bs]))
             = first_occurrences (map b_title (pre @ [b])) bs"
    unfolding app by (rule Cons.IH)
  have seen: "first_occurrences (map b_title (pre @ [b])) bs
               = first_occurrences (b_title b # map b_title pre) bs"
    by (rule first_occurrences_cong) auto
  have seen': "b_title b \<in> set (map b_title pre) \<Longrightarrow>
      first_occurrences (map b_title (pre @ [b])) bs = first_occurrences (map b_title pre) bs"
    by (rule first_occurrences_cong) auto
  show ?case
  proof (cases "b_title b \<in> set (map b_title pre)")
    case True
    with head tail seen' [OF True] show ?thesis
      unfolding range by (simp del: upt_Suc set_map)
  next
    case False
    with head tail seen show ?thesis
      unfolding range by (simp del: upt_Suc set_map)
  qed
qed

lemma uniqueBranches_first_occurrences:
  "uniqueBranches bs = first_occurrences [] bs"
proof -
  have "uniqueBranches bs =
     map fst (filter (\<lambda>(b, i). findIndex (\<lambda>c. b_title c = b_title b) bs = int i)
                (zip bs [0 ..< length bs]))"
    by (simp add: uniqueBranches_def filter_indexed_def)
  also have "filter (\<lambda>(b, i). findIndex (\<lambda>c. b_title c = b_title b) bs = int i)
                (zip bs [0 ..< length bs])
           = filter (\<lambda>(b, i). \<forall>j<i. b_title (bs ! j) \<noteq> b_title b) (zip bs [0 ..< length bs])"
    by (rule filter_cong) (auto simp: findIndex_iff in_set_zip)
  also have "map fst \<dots> = first_occurrences [] bs"
    using scan_suffix [of "[]" bs] by simp
  finally show ?thesis .
qed

lemma first_occurrences_distinct:
  "distinct (map b_title bs) \<Longrightarrow> set seen \<inter> b_title ` set bs = {} \<Longrightarrow>
     first_occurrences seen bs = bs"
  by (induction bs arbitrary: seen) auto

lemma preview_branches: "p_branches (preview (merge_preview rs)) = uniqueBranches (allBranches rs)"
  by (simp add: merge_preview_def Let_def)

lemma statistics_original: "original_duration (statistics (merge_preview rs)) = totalDuration rs"
  by (simp add: merge_preview_def Let_def)

lemma statistics_final:
  "final_duration (statistics (merge_preview rs)) = optimizedDuration (uniqueBranches (allBranches rs))"
  by (simp add: merge_preview_def Let_def)

lemma statistics_saved:
  "duration_saved (statistics (merge_preview rs))
     = original_duration (statistics (merge_preview rs))
       - final_duration (statistics (merge_preview rs))"
  by (simp add: merge_preview_def Let_def)

lemma statistics_efficiency:
  "efficiency_gain (statistics (merge_preview rs))
     = or_zero (Math_round (js_times
         (js_div (duration_saved (statistics (merge_preview rs)))
                 (original_duration (statistics (merge_preview rs)))) 100))"
  by (simp add: merge_preview_def Let_def)

lemma efficiency_gain_nonzero_total:
  "original_duration (statistics (merge_preview rs)) \<noteq> 0 \<Longrightarrow>
     efficiency_gain (statistics (merge_preview rs))
       = Num (of_int \<lfloor>rat_of_int (duration_saved (statistics (merge_preview rs)))
                        / rat_of_int (original_duration (statistics (merge_preview rs))) * 100
                        + 1 / 2\<rfloor>)"
  by (simp add: statistics_efficiency js_div_def)

lemma efficiency_gain_zero_total:
  "original_duration (statistics (merge_preview rs)) = 0 \<Longrightarrow>
   final_duration (statistics (merge_preview rs)) = 0 \<Longrightarrow>
     efficiency_gain (statistics (merge_preview rs)) = Num 0"
  by (simp add: statistics_efficiency statistics_saved js_div_def)

subsection \<open>C1: the original duration\<close>

text \<open>
  Claim C1, as amended. \<open>original_duration\<close> is the sum of the roadmaps' own
  \<open>estimatedDuration\<close> fields, for every sequence of resolved roadmaps; the duration
  saved and the efficiency gain are computed from that roadmap-level sum. It is the sum
  over all branches before deduplication whenever every roadmap's \<open>estimatedDuration\<close>
  equals the sum of its branches' \<open>estimatedDuration\<close>.
\<close>

theorem C1_original_duration:
  "original_duration (statistics (merge_preview rs)) = sum_list (map r_estimatedDuration rs)
   \<and> duration_saved (statistics (merge_preview rs))
       = sum_list (map r_estimatedDuration rs) - final_duration (statistics (merge_preview rs))
   \<and> efficiency_gain (statistics (merge_preview rs))
       = or_zero (Math_round (js_times
           (js_div (sum_list (map r_estimatedDuration rs)
                      - final_duration (statistics (merge_preview rs)))
                   (sum_list (map r_estimatedDuration rs))) 100))
   \<and> ((\<forall>r\<in>set rs. r_estimatedDuration r = sum_list (map b_estimatedDuration (branches r)))
        \<longrightarrow> original_duration (statistics (merge_preview rs))
              = sum_list (map b_estimatedDuration (allBranches rs)))"
  using sum_list_allBranches [of rs]
  by (simp add: statistics_efficiency statistics_saved statistics_original totalDuration_sum)

theorem C1_original_duration_witness:
  "r_estimatedDuration R1 = sum_list (map b_estimatedDuration (branches R1))
   \<and> r_estimatedDuration R2 = sum_list (map b_estimatedDuration (branches R2))
   \<and> original_duration (statistics (merge_preview [R1, R2])) = 9000
   \<and> sum_list (map b_estimatedDuration (allBranches [R1, R2])) = 9000"
  using C1_original_duration [of "[R1, R2]"]
  by (simp add: allBranches_def R1_def R2_def roadmap_def branch_def)

text \<open>The claim as it was stated fails for a roadmap whose \<open>estimatedDuration\<close>, 7200,
  is not the sum over its branches, 3600: the statistic is 7200.\<close>

theorem C1_counterexample:
  "original_duration (statistics (merge_preview [R_drift]))
     \<noteq> sum_list (map b_estimatedDuration (allBranches [R_drift]))"
  by (simp add: statistics_original totalDuration_sum allBranches_def R_drift_def
        roadmap_def branch_def)

subsection \<open>C2: deduplication by title\<close>

text \<open>
  Claim C2. For every sequence of source roadmaps the preview's branches are the
  concatenation of the sources' branches, in source order within each roadmap and then
  in roadmap order, with exactly the first occurrence of each title kept, titles being
  compared exactly. For two roadmaps whose branch titles are all distinct the preview
  lists the branches of the first followed by the branches of the second.
\<close>

theorem C2_first_occurrence_order:
  "p_branches (preview (merge_preview rs)) = first_occurrences [] (concat (map branches rs))
   \<and> (distinct (map b_title (branches A @ branches B))
        \<longrightarrow> p_branches (preview (merge_preview [A, B])) = branches A @ branches B)"
  using first_occurrences_distinct [of "branches A @ branches B" "[]"]
  by (simp add: preview_branches uniqueBranches_first_occurrences allBranches_def)

theorem C2_first_occurrence_order_witness:
  "distinct (map b_title (branches R1 @ branches R3))
   \<and> p_branches (preview (merge_preview [R1, R3])) = branches R1 @ branches R3
   \<and> map b_title (p_branches (preview (merge_preview [R1, R2, R3])))
       = [''Fundamentals'', ''Advanced'', ''fundamentals'', ''Practice'']"
  using C2_first_occurrence_order [of "[R1, R2, R3]" R1 R3]
  by (simp add: R1_def R2_def R3_def roadmap_def branch_def)

subsection \<open>C9: consistency of the statistics\<close>

text \<open>
  Claim C9 at a failing input: one roadmap whose \<open>estimatedDuration\<close> is 0 and whose
  only branch has 3600 seconds. The original duration is 0, the duration saved is
  \<open>-3600\<close>, and the efficiency gain is minus infinity, not 0: \<open>|| 0\<close> replaces
  \<open>NaN\<close> (from \<open>0 / 0\<close>) but not an infinity.
\<close>

theorem C9_efficiency_gain_not_guarded:
  "original_duration (statistics (merge_preview [R_zero])) = 0
   \<and> duration_saved (statistics (merge_preview [R_zero])) = - 3600
   \<and> efficiency_gain (statistics (merge_preview [R_zero])) = NegInfinity"
  by (simp add: merge_preview_def Let_def totalDuration_def allBranches_def uniqueBranches_def
       filter_indexed_def optimizedDuration_def js_div_def R_zero_def roadmap_def branch_def)

section \<open>Properties of the handlers\<close>

lemma merge_handler_status: "status (fst (merge_handler clock storage req)) = 200"
  by (simp add: merge_handler_def Let_def split_beta)

lemma merge_handler_calendar:
  "calendar (merged_roadmap (body (fst (merge_handler clock storage req))))
     = map_option
         (generateAutoSchedule clock
            (preview (merge_preview (validRoadmaps storage (roadmap_ids req)))))
         (schedule_call req)"
  by (simp add: merge_handler_def Let_def split_beta createMergedRoadmap_def preview_handler_def)

lemma merge_handler_branches:
  "m_branches (merged_roadmap (body (fst (merge_handler clock storage req))))
     = uniqueBranches (allBranches (validRoadmaps storage (roadmap_ids req)))"
  by (simp add: merge_handler_def Let_def split_beta createMergedRoadmap_def preview_handler_def
        preview_branches)

lemma merge_handler_stored:
  "mergedRoadmaps (snd (merge_handler clock storage req))
     (m_id (merged_roadmap (body (fst (merge_handler clock storage req)))))
     = Some (merged_roadmap (body (fst (merge_handler clock storage req))))"
  by (simp add: merge_handler_def Let_def split_beta createMergedRoadmap_def)


subsection \<open>C4: no minimum number of sources\<close>

text \<open>
  Claim C4, as amended. Neither handler rejects a request for the number of ids that
  resolve. For every storage and every list of ids the preview handler answers with
  status 200 and the preview and statistics computed from the roadmaps that resolve,
  however few; the merge handler answers with status 200, builds the merged roadmap
  from the same deduplicated branches and writes it to the storage.
\<close>

theorem C4_no_minimum:
  "status (preview_handler storage ids) = 200
   \<and> body (preview_handler storage ids) = merge_preview (validRoadmaps storage ids)
   \<and> original_roadmaps (statistics (body (preview_handler storage ids)))
       = length (validRoadmaps storage ids)
   \<and> status (fst (merge_handler clock storage req)) = 200
   \<and> m_branches (merged_roadmap (body (fst (merge_handler clock storage req))))
       = uniqueBranches (allBranches (validRoadmaps storage (roadmap_ids req)))
   \<and> mergedRoadmaps (snd (merge_handler clock storage req))
        (m_id (merged_roadmap (body (fst (merge_handler clock storage req)))))
       = Some (merged_roadmap (body (fst (merge_handler clock storage req))))"
  by (simp add: preview_handler_def merge_preview_def Let_def merge_handler_status
        merge_handler_branches merge_handler_stored)

theorem C4_no_minimum_witness:
  "validRoadmaps sample_storage [''R1'', ''missing''] = [R1]
   \<and> status (preview_handler sample_storage [''R1'', ''missing'']) = 200
   \<and> p_branches (preview (body (preview_handler sample_storage [''R1'', ''missing''])))
       = branches R1
   \<and> status (fst (merge_handler clock_utc sample_storage req_single)) = 200"
  using C4_no_minimum [of sample_storage "[''R1'', ''missing'']" clock_utc req_single]
  by (simp add: validRoadmaps_def getRoadmap_def sample_storage_def map_filter_def
        preview_branches uniqueBranches_first_occurrences allBranches_def
        R1_def roadmap_def branch_def)


text \<open>The claim as it was stated fails: a preview request whose only id does not resolve,
  and a merge request of which one id resolves, are answered without a client error.\<close>

theorem C4_counterexample:
  "length (validRoadmaps empty_storage [''missing'']) < 2
   \<and> \<not> client_error (preview_handler empty_storage [''missing''])
   \<and> length (validRoadmaps sample_storage (roadmap_ids req_single)) < 2
   \<and> \<not> client_error (fst (merge_handler clock_utc sample_storage req_single))"
  by (simp add: validRoadmaps_def getRoadmap_def empty_storage_def sample_storage_def
        map_filter_def client_error_def preview_handler_def merge_handler_status req_single_def)


section \<open>Properties of the scheduler\<close>

subsection \<open>The sort\<close>

lemma insert_core_first:
  "\<forall>c\<in>set cs. isCore c \<Longrightarrow> \<forall>n\<in>set ns. \<not> isCore n \<Longrightarrow>
     insert_by core_first x (cs @ ns) = (if isCore x then x # cs @ ns else cs @ x # ns)"
proof (induction cs)
  case Nil
  then show ?case by (cases ns) (auto simp: core_first_def)
next
  case (Cons c cs)
  then show ?case by (auto simp: core_first_def)
qed

lemma sort_core_first:
  "sort_by core_first xs = filter isCore xs @ filter (\<lambda>v. \<not> isCore v) xs"
proof (induction xs)
  case Nil
  show ?case by (simp add: sort_by_def)
next
  case (Cons x xs)
  have "sort_by core_first (x # xs) = insert_by core_first x (sort_by core_first xs)"
    by (simp add: sort_by_def)
  also have "\<dots> = insert_by core_first x (filter isCore xs @ filter (\<lambda>v. \<not> isCore v) xs)"
    by (simp add: Cons.IH)
  also have "\<dots> = (if isCore x then x # filter isCore xs @ filter (\<lambda>v. \<not> isCore v) xs
                    else filter isCore xs @ x # filter (\<lambda>v. \<not> isCore v) xs)"
    by (rule insert_core_first) auto
  finally show ?case by simp
qed

lemma sum_list_partition:
  "sum_list (map f (filter P xs)) + sum_list (map f (filter (\<lambda>x. \<not> P x) xs))
     = (sum_list (map f xs) :: int)"
  by (induction xs) auto

lemma duration_tagged [simp]: "duration (tagged t v) = duration v"
  by (simp add: tagged_def)

lemma sum_list_flatVideos:
  "sum_list (map duration (flatVideos bs)) = sum_list (map duration (concat (map videos bs)))"
  by (induction bs) (auto simp: flatVideos_def comp_def)

lemma sum_list_allVideos:
  "sum_list (map duration (allVideos p))
     = sum_list (map duration (concat (map videos (p_branches p))))"
  by (simp add: allVideos_def sort_core_first sum_list_partition sum_list_flatVideos)


subsection \<open>C6: core units first, stably\<close>

text \<open>
  Claim C6. Before the days are packed the units of all branches are flattened in
  branch order, each unit keeping its fields and receiving the title of its branch,
  and then sorted: the result is the core units of the flattened list, in their order
  there, followed by the units that are not core, in their order there.
\<close>

theorem C6_core_first:
  "allVideos p = filter isCore (flatVideos (p_branches p))
                   @ filter (\<lambda>v. \<not> isCore v) (flatVideos (p_branches p))
   \<and> flatVideos bs = concat (map (\<lambda>b. map (tagged (b_title b)) (videos b)) bs)
   \<and> branch_title (tagged t v) = t
   \<and> VideoModule.truncate (tagged t v) = v"
  by (simp add: allVideos_def sort_core_first flatVideos_def tagged_def VideoModule.truncate_def)

theorem C6_core_first_witness:
  "map v_id (flatVideos (p_branches p_mixed)) = [''a'', ''b'', ''c'', ''d'', ''e'', ''f'']
   \<and> map v_id (allVideos p_mixed) = [''b'', ''e'', ''f'', ''a'', ''c'', ''d'']
   \<and> map branch_title (allVideos p_mixed) = [''B'', ''C'', ''C'', ''B'', ''B'', ''C'']"
  using C6_core_first [of p_mixed]
  by (simp add: flatVideos_def tagged_def p_mixed_def preview_of_def branch_def video_def)


subsection \<open>The inner loop\<close>

lemma duration_scheduled [simp]: "duration (scheduled v) = duration v"
  by (simp add: scheduled_def)

lemma take_Suc_drop:
  "i < length xs \<Longrightarrow> take (Suc n) (drop i xs) = xs ! i # take n (drop (Suc i) xs)"
  by (simp add: Cons_nth_drop_Suc [symmetric])

lemma dailyLoop_spec:
  "dailyLoop vids B i dv dd = (i', dv', dd') \<Longrightarrow>
     i \<le> i' \<and> (i \<le> length vids \<longrightarrow> i' \<le> length vids)
     \<and> dv' = dv @ map scheduled (take (i' - i) (drop i vids))
     \<and> dd' = dd + sum_list (map duration (take (i' - i) (drop i vids)))
     \<and> (\<forall>m. 0 < m \<and> m \<le> i' - i \<longrightarrow>
            of_int (dd + sum_list (map duration (take m (drop i vids)))) \<le> B)
     \<and> (i' < length vids \<longrightarrow>
            \<not> (of_int dd' < B \<and> of_int (dd' + duration (vids ! i')) \<le> B))"
proof (induction vids B i dv dd rule: dailyLoop.induct)
  case (1 vids B i dv dd)
  show ?case
  proof (cases "i < length vids \<and> of_int dd < B \<and> of_int (dd + duration (vids ! i)) \<le> B")
    case False
    then have "dailyLoop vids B i dv dd = (i, dv, dd)"
      by (subst dailyLoop.simps) (auto simp: Let_def)
    with "1.prems" have "i' = i" "dv' = dv" "dd' = dd" by simp_all
    with False show ?thesis by auto
  next
    case True
    then have "dailyLoop vids B i dv dd
        = dailyLoop vids B (i + 1) (dv @ [scheduled (vids ! i)]) (dd + duration (vids ! i))"
      by (subst dailyLoop.simps) (simp add: Let_def)
    with "1.prems" have rec:
      "dailyLoop vids B (i + 1) (dv @ [scheduled (vids ! i)]) (dd + duration (vids ! i))
         = (i', dv', dd')" by simp
    from True have c1: "i < length vids \<and> of_int dd < B" by simp
    from True have c2: "of_int (dd + duration (vids ! i)) \<le> B" by simp
    note IH = "1.IH" [OF c1 refl c2 rec]
    from IH have le: "i + 1 \<le> i'" by simp
    then have diff: "i' - i = Suc (i' - (i + 1))" by simp
    have tk: "take (Suc n) (drop i vids) = vids ! i # take n (drop (i + 1) vids)" for n
      using take_Suc_drop [of i vids n] True by simp
    have A: "i \<le> i'" using le by simp
    have B': "i \<le> length vids \<longrightarrow> i' \<le> length vids" using IH True by simp
    have C: "dv' = dv @ map scheduled (take (i' - i) (drop i vids))"
      using IH unfolding diff tk by simp
    have D: "dd' = dd + sum_list (map duration (take (i' - i) (drop i vids)))"
      using IH unfolding diff tk by simp
    have E: "of_int (dd + sum_list (map duration (take m (drop i vids)))) \<le> B"
      if m: "0 < m" "m \<le> i' - i" for m
    proof (cases m)
      case 0
      with m show ?thesis by simp
    next
      case (Suc n)
      show ?thesis
      proof (cases n)
        case 0
        with Suc c2 show ?thesis by (simp add: tk)
      next
        case (Suc n')
        with \<open>m = Suc n\<close> m diff have "0 < n \<and> n \<le> i' - (i + 1)" by simp
        with IH have "of_int (dd + duration (vids ! i)
                        + sum_list (map duration (take n (drop (i + 1) vids)))) \<le> B"
          by blast
        with \<open>m = Suc n\<close> show ?thesis by (simp add: tk add.assoc)
      qed
    qed
    have F: "i' < length vids \<longrightarrow>
            \<not> (of_int dd' < B \<and> of_int (dd' + duration (vids ! i')) \<le> B)"
      using IH by blast
    from A B' C D E F show ?thesis by blast
  qed
qed

lemma dailyLoop_day:
  assumes dl: "dailyLoop vids B i [] 0 = (i', dv, dd)" and i: "i < length vids"
  shows "i \<le> i'" and "i' \<le> length vids"
    and "dv = map scheduled (take (i' - i) (drop i vids))"
    and "length dv = i' - i"
    and "dd = sum_list (map duration dv)"
    and "\<And>m. 0 < m \<Longrightarrow> m \<le> length dv \<Longrightarrow>
            of_int (sum_list (map duration (take m dv))) \<le> B"
    and "i' < length vids \<Longrightarrow>
            \<not> (of_int dd < B \<and> of_int (dd + duration (vids ! i')) \<le> B)"
    and "dv \<noteq> [] \<Longrightarrow> hd dv = scheduled (vids ! i)"
proof -
  note spec = dailyLoop_spec [OF dl]
  show le: "i \<le> i'" using spec by blast
  show le': "i' \<le> length vids" using spec i by simp
  show dv: "dv = map scheduled (take (i' - i) (drop i vids))" using spec by simp
  show len: "length dv = i' - i" using dv le le' by simp
  have dur: "map duration dv = map duration (take (i' - i) (drop i vids))"
    unfolding dv by (simp add: comp_def)
  show "dd = sum_list (map duration dv)" using spec unfolding dur by simp
  show "of_int (sum_list (map duration (take m dv))) \<le> B" if m: "0 < m" "m \<le> length dv" for m
  proof -
    have "map duration (take m dv) = map duration (take m (drop i vids))"
      using m len unfolding dv by (simp add: take_map min_def)
    moreover have "\<forall>m. 0 < m \<and> m \<le> i' - i \<longrightarrow>
            rat_of_int (0 + sum_list (map duration (take m (drop i vids)))) \<le> B"
      using spec by (elim conjE)
    then have "rat_of_int (0 + sum_list (map duration (take m (drop i vids)))) \<le> B"
      using m len by simp
    ultimately show ?thesis by simp
  qed
  show "\<not> (of_int dd < B \<and> of_int (dd + duration (vids ! i')) \<le> B)" if "i' < length vids"
    using spec that by blast
  show "hd dv = scheduled (vids ! i)" if "dv \<noteq> []"
  proof -
    from that len have "0 < i' - i" by (cases dv) auto
    then obtain n where n: "i' - i = Suc n" by (cases "i' - i") auto
    show ?thesis unfolding dv n using take_Suc_drop [OF i] by simp
  qed
qed

lemma dailyLoop_no_budget: "B \<le> 0 \<Longrightarrow> dailyLoop vids B i [] 0 = (i, [], 0)"
  by (subst dailyLoop.simps) simp

lemma dailyLoop_blocked:
  "dailyLoop vids B i dv dd = (i', dv', dd') \<Longrightarrow> i \<le> j \<Longrightarrow> j < length vids \<Longrightarrow>
   B < of_int (duration (vids ! j)) \<Longrightarrow> 0 \<le> dd \<Longrightarrow> \<forall>m<j. 0 \<le> duration (vids ! m) \<Longrightarrow>
     i' \<le> j"
proof (induction vids B i dv dd rule: dailyLoop.induct)
  case (1 vids B i dv dd)
  show ?case
  proof (cases "i < length vids \<and> of_int dd < B \<and> of_int (dd + duration (vids ! i)) \<le> B")
    case False
    then have "dailyLoop vids B i dv dd = (i, dv, dd)"
      by (subst dailyLoop.simps) (auto simp: Let_def)
    with "1.prems" show ?thesis by simp
  next
    case True
    then have "dailyLoop vids B i dv dd
        = dailyLoop vids B (i + 1) (dv @ [scheduled (vids ! i)]) (dd + duration (vids ! i))"
      by (subst dailyLoop.simps) (simp add: Let_def)
    with "1.prems" have rec:
      "dailyLoop vids B (i + 1) (dv @ [scheduled (vids ! i)]) (dd + duration (vids ! i))
         = (i', dv', dd')" by simp
    from True have c1: "i < length vids \<and> of_int dd < B" by simp
    from True have c2: "of_int (dd + duration (vids ! i)) \<le> B" by simp
    have "i \<noteq> j"
    proof
      assume "i = j"
      with "1.prems" have "B < of_int (dd + duration (vids ! i))" by simp
      with c2 show False by simp
    qed
    with "1.prems"(2) have lt: "i < j" by simp
    then have le: "i + 1 \<le> j" by simp
    from lt "1.prems"(5,6) have nn: "0 \<le> dd + duration (vids ! i)" by simp
    show ?thesis
      by (rule "1.IH" [OF c1 refl c2 rec le "1.prems"(3) "1.prems"(4) nn "1.prems"(6)])
  qed
qed


subsection \<open>The outer loop: an invariant rule\<close>

lemma dateStr_offset: "dateStr clock d = dateStr clock 0 + int d"
  by (simp add: dateStr_def)

lemma dateStr_inj: "dateStr clock d1 = dateStr clock d2 \<longleftrightarrow> d1 = d2"
  by (simp add: dateStr_offset [of clock d1] dateStr_offset [of clock d2])

lemma dateStr_less: "dateStr clock d1 < dateStr clock d2 \<longleftrightarrow> d1 < d2"
  by (simp add: dateStr_offset [of clock d1] dateStr_offset [of clock d2])

lemma update_fresh: "k \<notin> fst ` set al \<Longrightarrow> AList.update k v al = al @ [(k, v)]"
  by (induction al) auto

lemma scheduleLoop_rule:
  assumes init: "I i d cal"
    and weekend: "\<And>i d cal. I i d cal \<Longrightarrow> i < length vids \<Longrightarrow> d < 30 \<Longrightarrow>
           getDay clock d = 0 \<or> getDay clock d = 6 \<Longrightarrow> I i (d + 1) cal"
    and weekday: "\<And>i d cal i' dv dd. I i d cal \<Longrightarrow> i < length vids \<Longrightarrow> d < 30 \<Longrightarrow>
           \<not> (getDay clock d = 0 \<or> getDay clock d = 6) \<Longrightarrow>
           dailyLoop vids B i [] 0 = (i', dv, dd) \<Longrightarrow>
           I i' (d + 1) (if length dv > 0 then AList.update (dateStr clock d) dv cal else cal)"
  shows "case scheduleLoop clock vids B i d cal of
           (i', d', cal') \<Rightarrow> I i' d' cal' \<and> \<not> (i' < length vids \<and> d' < 30)"
  using assms
proof (induction clock vids B i d cal rule: scheduleLoop.induct)
  case (1 clock vids B i d cal)
  note init = "1.prems"(1) and weekend = "1.prems"(2) and weekday = "1.prems"(3)
  show ?case
  proof (cases "i < length vids \<and> d < 30")
    case False
    then have "scheduleLoop clock vids B i d cal = (i, d, cal)"
      by (subst scheduleLoop.simps) auto
    with False init show ?thesis by simp
  next
    case True
    show ?thesis
    proof (cases "getDay clock d = 0 \<or> getDay clock d = 6")
      case we: True
      have eq: "scheduleLoop clock vids B i d cal = scheduleLoop clock vids B i (d + 1) cal"
        using True we by (subst scheduleLoop.simps) simp
      have "I i (d + 1) cal" using init True we by (intro weekend) auto
      then have "case scheduleLoop clock vids B i (d + 1) cal of
           (i', d', cal') \<Rightarrow> I i' d' cal' \<and> \<not> (i' < length vids \<and> d' < 30)"
        apply (rule "1.IH"(1) [OF True we])
         apply (rule weekend; assumption)
        apply (rule weekday; assumption)
        done
      then show ?thesis unfolding eq .
    next
      case wd: False
      obtain i' dv dd where dl: "dailyLoop vids B i [] 0 = (i', dv, dd)"
        by (cases "dailyLoop vids B i [] 0") auto
      have eq: "scheduleLoop clock vids B i d cal
                  = scheduleLoop clock vids B i' (d + 1)
                      (if length dv > 0 then AList.update (dateStr clock d) dv cal else cal)"
        using True wd dl by (subst scheduleLoop.simps) simp
      have "I i' (d + 1) (if length dv > 0 then AList.update (dateStr clock d) dv cal else cal)"
        using init True wd dl by (intro weekday) auto
      then have "case scheduleLoop clock vids B i' (d + 1)
                    (if length dv > 0 then AList.update (dateStr clock d) dv cal else cal) of
           (i', d', cal') \<Rightarrow> I i' d' cal' \<and> \<not> (i' < length vids \<and> d' < 30)"
        apply (rule "1.IH"(2) [OF True wd dl [symmetric] refl])
         apply (rule weekend; assumption)
        apply (rule weekday; assumption)
        done
      then show ?thesis unfolding eq .
    qed
  qed
qed


text \<open>Every key in the calendar is older than the day being visited, so the assignment
  to the calendar always appends an entry.\<close>

lemma scheduleLoop_rule_fresh:
  assumes fresh: "\<forall>k\<in>fst ` set cal. k < dateStr clock d"
    and init: "I i d cal"
    and weekend: "\<And>i d cal. I i d cal \<Longrightarrow> i < length vids \<Longrightarrow> d < 30 \<Longrightarrow>
           getDay clock d = 0 \<or> getDay clock d = 6 \<Longrightarrow> I i (d + 1) cal"
    and idle: "\<And>i d cal. I i d cal \<Longrightarrow> i < length vids \<Longrightarrow> d < 30 \<Longrightarrow>
           \<not> (getDay clock d = 0 \<or> getDay clock d = 6) \<Longrightarrow>
           dailyLoop vids B i [] 0 = (i, [], 0) \<Longrightarrow> I i (d + 1) cal"
    and pack: "\<And>i d cal i' dv dd. I i d cal \<Longrightarrow> i < length vids \<Longrightarrow> d < 30 \<Longrightarrow>
           \<not> (getDay clock d = 0 \<or> getDay clock d = 6) \<Longrightarrow>
           dailyLoop vids B i [] 0 = (i', dv, dd) \<Longrightarrow> dv \<noteq> [] \<Longrightarrow>
           \<forall>k\<in>fst ` set cal. k < dateStr clock d \<Longrightarrow>
           I i' (d + 1) (cal @ [(dateStr clock d, dv)])"
  shows "case scheduleLoop clock vids B i d cal of
           (i', d', cal') \<Rightarrow> I i' d' cal' \<and> \<not> (i' < length vids \<and> d' < 30)"
proof -
  let ?J = "\<lambda>i d cal. I i d cal \<and> (\<forall>k\<in>fst ` set cal. k < dateStr clock d)"
  have "case scheduleLoop clock vids B i d cal of
           (i', d', cal') \<Rightarrow> ?J i' d' cal' \<and> \<not> (i' < length vids \<and> d' < 30)"
  proof (rule scheduleLoop_rule [where I = ?J])
    show "?J i d cal" using init fresh by simp
  next
    fix i d cal
    assume J: "?J i d cal" and b: "i < length vids" "d < 30"
      and we: "getDay clock d = 0 \<or> getDay clock d = 6"
    have "I i (d + 1) cal" using J b we by (intro weekend) auto
    moreover have "\<forall>k\<in>fst ` set cal. k < dateStr clock (d + 1)"
      using J dateStr_less [of clock d "d + 1"] by fastforce
    ultimately show "?J i (d + 1) cal" by simp
  next
    fix i d cal i' dv dd
    assume J: "?J i d cal" and b: "i < length vids" "d < 30"
      and wd: "\<not> (getDay clock d = 0 \<or> getDay clock d = 6)"
      and dl: "dailyLoop vids B i [] 0 = (i', dv, dd)"
    have older: "\<forall>k\<in>fst ` set cal. k < dateStr clock (d + 1)"
      using J dateStr_less [of clock d "d + 1"] by fastforce
    show "?J i' (d + 1) (if length dv > 0 then AList.update (dateStr clock d) dv cal else cal)"
    proof (cases "dv = []")
      case True
      with dailyLoop_day(1,4,5) [OF dl b(1)] have "i' = i" "dd = 0" by simp_all
      with dl True have "dailyLoop vids B i [] 0 = (i, [], 0)" by simp
      then have "I i (d + 1) cal" using J b wd by (intro idle) auto
      with older True \<open>i' = i\<close> show ?thesis by simp
    next
      case False
      have "dateStr clock d \<notin> fst ` set cal" using J by fastforce
      then have upd: "AList.update (dateStr clock d) dv cal = cal @ [(dateStr clock d, dv)]"
        by (rule update_fresh)
      have "I i' (d + 1) (cal @ [(dateStr clock d, dv)])"
        using J b wd dl False by (intro pack) auto
      moreover have "\<forall>k\<in>fst ` set (cal @ [(dateStr clock d, dv)]). k < dateStr clock (d + 1)"
        using older dateStr_less [of clock d "d + 1"] by auto
      ultimately show ?thesis using False upd by simp
    qed
  qed
  then show ?thesis by (auto split: prod.splits)
qed


subsection \<open>Invariants of the outer loop\<close>

text \<open>The calendar lists a prefix of the sorted units, in order.\<close>

lemma take_add_drop: "take (i + n) xs = take i xs @ take n (drop i xs)"
  by (simp add: take_add)

lemma scheduleLoop_prefix:
  assumes "scheduleLoop clock vids B 0 0 [] = (i, d, cal)"
  shows "i \<le> length vids \<and> concat (map snd cal) = map scheduled (take i vids)"
proof -
  let ?I = "\<lambda>i (d::nat) (cal::calendar).
              i \<le> length vids \<and> concat (map snd cal) = map scheduled (take i vids)"
  have "case scheduleLoop clock vids B 0 0 [] of
           (i', d', cal') \<Rightarrow> ?I i' d' cal' \<and> \<not> (i' < length vids \<and> d' < 30)"
  proof (rule scheduleLoop_rule_fresh [where I = ?I])
    show "\<forall>k\<in>fst ` set []. k < dateStr clock 0" by simp
    show "?I 0 0 []" by simp
  next
    fix i d cal i' dv dd
    assume I: "?I i d cal" and b: "i < length vids"
      and dl: "dailyLoop vids B i [] 0 = (i', dv, dd)" and ne: "dv \<noteq> []"
    note day = dailyLoop_day [OF dl b]
    from day(1) have i': "i' = i + (i' - i)" by simp
    have "take i' vids = take i vids @ take (i' - i) (drop i vids)"
      by (subst i') (rule take_add_drop)
    with I day(2,3) show "?I i' (d + 1) (cal @ [(dateStr clock d, dv)])" by simp
  qed
  with assms show ?thesis by simp
qed


text \<open>Every entry is non-empty and stays within the budget, unit by unit.\<close>

lemma scheduleLoop_entries:
  assumes "scheduleLoop clock vids B 0 0 [] = (i, d, cal)"
  shows "\<forall>(k, evs)\<in>set cal. evs \<noteq> [] \<and>
           (\<forall>m. 0 < m \<and> m \<le> length evs \<longrightarrow>
                  of_int (sum_list (map duration (take m evs))) \<le> B)"
proof -
  let ?I = "\<lambda>(i::nat) (d::nat) (cal::calendar). \<forall>(k, evs)\<in>set cal. evs \<noteq> [] \<and>
           (\<forall>m. 0 < m \<and> m \<le> length evs \<longrightarrow>
                  of_int (sum_list (map duration (take m evs))) \<le> B)"
  have "case scheduleLoop clock vids B 0 0 [] of
           (i', d', cal') \<Rightarrow> ?I i' d' cal' \<and> \<not> (i' < length vids \<and> d' < 30)"
  proof (rule scheduleLoop_rule_fresh [where I = ?I])
    show "\<forall>k\<in>fst ` set []. k < dateStr clock 0" by simp
    show "?I 0 0 []" by simp
  next
    fix i d cal i' dv dd
    assume I: "?I i d cal" and b: "i < length vids"
      and dl: "dailyLoop vids B i [] 0 = (i', dv, dd)" and ne: "dv \<noteq> []"
    note day = dailyLoop_day [OF dl b]
    from I ne day(6) show "?I i' (d + 1) (cal @ [(dateStr clock d, dv)])" by auto
  qed
  with assms show ?thesis by simp
qed


text \<open>The keys are the UTC dates of visited days that are not local weekend days, in
  increasing order.\<close>

lemma scheduleLoop_keys:
  assumes "scheduleLoop clock vids B 0 0 [] = (i, d, cal)"
  shows "sorted_wrt (<) (map fst cal) \<and>
         (\<forall>k\<in>fst ` set cal. \<exists>d'<30. k = dateStr clock d'
              \<and> getDay clock d' \<noteq> 0 \<and> getDay clock d' \<noteq> 6)"
proof -
  let ?I = "\<lambda>(i::nat) (d::nat) (cal::calendar). sorted_wrt (<) (map fst cal) \<and>
         (\<forall>k\<in>fst ` set cal. \<exists>d'<30. k = dateStr clock d'
              \<and> getDay clock d' \<noteq> 0 \<and> getDay clock d' \<noteq> 6)"
  have "case scheduleLoop clock vids B 0 0 [] of
           (i', d', cal') \<Rightarrow> ?I i' d' cal' \<and> \<not> (i' < length vids \<and> d' < 30)"
  proof (rule scheduleLoop_rule_fresh [where I = ?I])
    show "\<forall>k\<in>fst ` set []. k < dateStr clock 0" by simp
    show "?I 0 0 []" by simp
  next
    fix i d cal i' dv dd
    assume I: "?I i d cal" and d: "d < 30"
      and wd: "\<not> (getDay clock d = 0 \<or> getDay clock d = 6)"
      and old: "\<forall>k\<in>fst ` set cal. k < dateStr clock d"
    have 1: "sorted_wrt (<) (map fst (cal @ [(dateStr clock d, dv)]))"
      using I old by (simp add: sorted_wrt_append)
    have 2: "\<exists>d'<30. k = dateStr clock d' \<and> getDay clock d' \<noteq> 0 \<and> getDay clock d' \<noteq> 6"
      if "k \<in> fst ` set (cal @ [(dateStr clock d, dv)])" for k
    proof (cases "k = dateStr clock d")
      case True
      with d wd show ?thesis by auto
    next
      case False
      with that have "k \<in> fst ` set cal" by auto
      with I show ?thesis by blast
    qed
    from 1 2 show "?I i' (d + 1) (cal @ [(dateStr clock d, dv)])" by blast
  qed
  with assms show ?thesis by simp
qed

lemma scheduleLoop_length:
  assumes "scheduleLoop clock vids B 0 0 [] = (i, d, cal)"
  shows "distinct (map fst cal) \<and> length cal \<le> 30"
proof -
  note keys = scheduleLoop_keys [OF assms]
  from keys have "sorted_wrt (<) (map fst cal)" by blast
  then have dist: "distinct (map fst cal)"
    using strict_sorted_iff [of "map fst cal"] by blast
  have "set (map fst cal) \<subseteq> dateStr clock ` {0..<30}"
    using keys by auto
  then have "card (set (map fst cal)) \<le> card (dateStr clock ` {0..<30})"
    by (intro card_mono) auto
  also have "\<dots> \<le> card {0..<30::nat}" by (rule card_image_le) simp
  finally have "card (set (map fst cal)) \<le> 30" by simp
  with distinct_card [OF dist] have "length cal \<le> 30" by simp
  with dist show ?thesis by simp
qed


text \<open>The first unit of an entry did not fit into the entry before it.\<close>

lemma scheduleLoop_greedy:
  assumes "scheduleLoop clock vids B 0 0 [] = (i, d, cal)"
  shows "successively
           (\<lambda>a b. \<not> (of_int (sum_list (map duration (snd a))) < B
                      \<and> of_int (sum_list (map duration (snd a)) + duration (hd (snd b))) \<le> B))
           cal"
proof -
  let ?G = "\<lambda>a b. \<not> (of_int (sum_list (map duration (snd a))) < B
                      \<and> of_int (sum_list (map duration (snd a)) + duration (hd (snd b))) \<le> B)"
  let ?I = "\<lambda>(i::nat) (d::nat) (cal::calendar). successively ?G cal \<and>
      (cal \<noteq> [] \<and> i < length vids \<longrightarrow>
         \<not> (of_int (sum_list (map duration (snd (last cal)))) < B
            \<and> of_int (sum_list (map duration (snd (last cal))) + duration (vids ! i)) \<le> B))"
  have "case scheduleLoop clock vids B 0 0 [] of
           (i', d', cal') \<Rightarrow> ?I i' d' cal' \<and> \<not> (i' < length vids \<and> d' < 30)"
  proof (rule scheduleLoop_rule_fresh [where I = ?I])
    show "\<forall>k\<in>fst ` set []. k < dateStr clock 0" by simp
    show "?I 0 0 []" by simp
  next
    fix i d cal i' dv dd
    assume I: "?I i d cal" and b: "i < length vids"
      and dl: "dailyLoop vids B i [] 0 = (i', dv, dd)" and ne: "dv \<noteq> []"
    note day = dailyLoop_day [OF dl b]
    have hd: "duration (hd dv) = duration (vids ! i)" using day(8) [OF ne] by simp
    have link: "cal \<noteq> [] \<longrightarrow> ?G (last cal) (dateStr clock d, dv)"
      using I b hd by simp
    have 1: "successively ?G (cal @ [(dateStr clock d, dv)])"
      using I link by (auto simp: successively_append_iff)
    have 2: "i' < length vids \<longrightarrow>
         \<not> (of_int (sum_list (map duration dv)) < B
            \<and> of_int (sum_list (map duration dv) + duration (vids ! i')) \<le> B)"
      using day(5,7) by blast
    from 1 2 show "?I i' (d + 1) (cal @ [(dateStr clock d, dv)])" by simp
  qed
  with assms show ?thesis by simp
qed


text \<open>With a positive budget, consecutive entries lie on consecutive eligible days.\<close>

lemma scheduleLoop_next_day:
  assumes "scheduleLoop clock vids B 0 0 [] = (i, d, cal)" and pos: "0 < B"
  shows "successively
           (\<lambda>a b. \<forall>d1 d2 d'. fst a = dateStr clock d1 \<and> fst b = dateStr clock d2
                       \<and> d1 < d' \<and> d' < d2
                     \<longrightarrow> getDay clock d' = 0 \<or> getDay clock d' = 6)
           cal"
proof -
  let ?N = "\<lambda>a b. \<forall>d1 d2 d'. fst a = dateStr clock d1 \<and> fst b = dateStr clock d2
                       \<and> d1 < d' \<and> d' < d2
                     \<longrightarrow> getDay clock d' = 0 \<or> getDay clock d' = 6"
  let ?I = "\<lambda>(i::nat) (d::nat) (cal::calendar). successively ?N cal \<and>
      (cal \<noteq> [] \<longrightarrow>
         (i < length vids \<and> B < of_int (duration (vids ! i)))
         \<or> (\<forall>d1 d'. fst (last cal) = dateStr clock d1 \<and> d1 < d' \<and> d' < d
               \<longrightarrow> getDay clock d' = 0 \<or> getDay clock d' = 6))"
  have "case scheduleLoop clock vids B 0 0 [] of
           (i', d', cal') \<Rightarrow> ?I i' d' cal' \<and> \<not> (i' < length vids \<and> d' < 30)"
  proof (rule scheduleLoop_rule_fresh [where I = ?I])
    show "\<forall>k\<in>fst ` set []. k < dateStr clock 0" by simp
    show "?I 0 0 []" by simp
  next
    fix i d cal
    assume I: "?I i d cal" and we: "getDay clock d = 0 \<or> getDay clock d = 6"
    have "getDay clock d' = 0 \<or> getDay clock d' = 6"
      if "\<forall>d1 d'. fst (last cal) = dateStr clock d1 \<and> d1 < d' \<and> d' < d
               \<longrightarrow> getDay clock d' = 0 \<or> getDay clock d' = 6"
        and "fst (last cal) = dateStr clock d1" "d1 < d'" "d' < d + 1" for d1 d'
    proof (cases "d' = d")
      case True
      with we show ?thesis by simp
    next
      case False
      with that have "d' < d" by simp
      with that show ?thesis by blast
    qed
    with I show "?I i (d + 1) cal" by blast
  next
    fix i d cal
    assume I: "?I i d cal" and b: "i < length vids"
      and dl: "dailyLoop vids B i [] 0 = (i, [], 0)"
    from dailyLoop_day(7) [OF dl b b] pos have "B < of_int (duration (vids ! i))" by simp
    with I b show "?I i (d + 1) cal" by simp
  next
    fix i d cal i' dv dd
    assume I: "?I i d cal" and b: "i < length vids"
      and dl: "dailyLoop vids B i [] 0 = (i', dv, dd)" and ne: "dv \<noteq> []"
    note day = dailyLoop_day [OF dl b]
    from ne have "0 < (1::nat) \<and> 1 \<le> length dv" by (cases dv) auto
    with day(6) [of 1] have "of_int (sum_list (map duration (take 1 dv))) \<le> B" by simp
    moreover have "take 1 dv = [hd dv]" using ne by (cases dv) auto
    ultimately have fits: "of_int (duration (vids ! i)) \<le> B" using day(8) [OF ne] by simp
    have link: "cal \<noteq> [] \<longrightarrow> ?N (last cal) (dateStr clock d, dv)"
      using I fits by (auto simp: dateStr_inj)
    have 1: "successively ?N (cal @ [(dateStr clock d, dv)])"
      using I link by (auto simp: successively_append_iff)
    have 2: "\<forall>d1 d'. dateStr clock d = dateStr clock d1 \<and> d1 < d' \<and> d' < d + 1
               \<longrightarrow> getDay clock d' = 0 \<or> getDay clock d' = 6"
      by (auto simp: dateStr_inj)
    from 1 2 show "?I i' (d + 1) (cal @ [(dateStr clock d, dv)])" by auto
  qed
  with assms show ?thesis by simp
qed


text \<open>A budget that is not positive schedules nothing.\<close>

lemma scheduleLoop_no_budget:
  assumes "scheduleLoop clock vids B 0 0 [] = (i, d, cal)" and "B \<le> 0"
  shows "cal = []"
proof -
  let ?I = "\<lambda>(i::nat) (d::nat) (cal::calendar). cal = []"
  have "case scheduleLoop clock vids B 0 0 [] of
           (i', d', cal') \<Rightarrow> ?I i' d' cal' \<and> \<not> (i' < length vids \<and> d' < 30)"
  proof (rule scheduleLoop_rule_fresh [where I = ?I])
    show "\<forall>k\<in>fst ` set []. k < dateStr clock 0" by simp
    show "?I 0 0 []" by simp
  next
    fix i d cal i' dv dd
    assume "dailyLoop vids B i [] 0 = (i', dv, dd)" and ne: "dv \<noteq> []"
    with dailyLoop_no_budget [OF assms(2), of vids i] have False by simp
    then show "?I i' (d + 1) (cal @ [(dateStr clock d, dv)])" ..
  qed
  with assms show ?thesis by simp
qed


text \<open>A unit longer than the budget is never passed, and the loop runs to the cap.\<close>

lemma scheduleLoop_stuck:
  assumes "scheduleLoop clock vids B 0 0 [] = (i, d, cal)"
    and j: "j < length vids" "B < of_int (duration (vids ! j))"
    and nonneg: "\<forall>m<j. 0 \<le> duration (vids ! m)"
  shows "i \<le> j \<and> d = 30"
proof -
  let ?I = "\<lambda>(i::nat) (d::nat) (cal::calendar). i \<le> j \<and> d \<le> 30"
  have "case scheduleLoop clock vids B 0 0 [] of
           (i', d', cal') \<Rightarrow> ?I i' d' cal' \<and> \<not> (i' < length vids \<and> d' < 30)"
  proof (rule scheduleLoop_rule_fresh [where I = ?I])
    show "\<forall>k\<in>fst ` set []. k < dateStr clock 0" by simp
    show "?I 0 0 []" by simp
  next
    fix i d :: nat and cal :: calendar
    assume "?I i d cal" and "d < 30"
      and "getDay clock d = 0 \<or> getDay clock d = 6"
    then show "?I i (d + 1) cal" by simp
  next
    fix i d :: nat and cal :: calendar
    assume "?I i d cal" and "d < 30" and "dailyLoop vids B i [] 0 = (i, [], 0)"
    then show "?I i (d + 1) cal" by simp
  next
    fix i d cal i' dv dd
    assume I: "?I i d cal" and d: "d < 30" and dl: "dailyLoop vids B i [] 0 = (i', dv, dd)"
      and ne: "dv \<noteq> []"
    from I have le: "i \<le> j" by simp
    have zero: "(0::int) \<le> 0" by simp
    have "i' \<le> j" by (rule dailyLoop_blocked [OF dl le j(1) j(2) zero nonneg])
    with d show "?I i' (d + 1) (cal @ [(dateStr clock d, dv)])" by simp
  qed
  with assms(1) j(1) show ?thesis by auto
qed


text \<open>The calendar holds at most 30 budgets of units.\<close>

lemma sum_list_concat_bound:
  fixes B :: rat
  assumes "\<forall>evs\<in>set ess. of_int (sum_list (map duration evs)) \<le> B"
  shows "of_int (sum_list (map duration (concat ess))) \<le> of_nat (length ess) * B"
  using assms by (induction ess) (auto simp: algebra_simps)

lemma scheduleLoop_capacity:
  assumes run: "scheduleLoop clock vids B 0 0 [] = (i, d, cal)" and pos: "0 \<le> B"
  shows "of_int (sum_list (map duration (take i vids))) \<le> 30 * B"
proof -
  have "\<forall>evs\<in>set (map snd cal). of_int (sum_list (map duration evs)) \<le> B"
  proof
    fix evs assume "evs \<in> set (map snd cal)"
    then obtain k where "(k, evs) \<in> set cal" by auto
    with scheduleLoop_entries [OF run]
    have ne: "evs \<noteq> []"
      and all: "\<forall>m. 0 < m \<and> m \<le> length evs \<longrightarrow>
                  of_int (sum_list (map duration (take m evs))) \<le> B" by auto
    from ne have "0 < length evs" by simp
    with all have "of_int (sum_list (map duration (take (length evs) evs))) \<le> B" by blast
    then show "of_int (sum_list (map duration evs)) \<le> B" by simp
  qed
  then have "of_int (sum_list (map duration (concat (map snd cal))))
               \<le> of_nat (length (map snd cal)) * B"
    by (rule sum_list_concat_bound)
  also have "\<dots> \<le> 30 * B"
    using scheduleLoop_length [OF run] pos by (intro mult_right_mono) simp_all
  finally show ?thesis
    using scheduleLoop_prefix [OF run] by (simp add: comp_def)
qed


lemma generateAutoSchedule_run:
  obtains i d where
    "scheduleLoop clock (allVideos p) (h * 3600) 0 0 [] = (i, d, generateAutoSchedule clock p h)"
  by (cases "scheduleLoop clock (allVideos p) (h * 3600) 0 0 []")
     (simp add: generateAutoSchedule_def Let_def)

lemma generateAutoSchedule_no_budget: "h \<le> 0 \<Longrightarrow> generateAutoSchedule clock p h = []"
proof -
  assume h: "h \<le> 0"
  obtain i d where run:
    "scheduleLoop clock (allVideos p) (h * 3600) 0 0 [] = (i, d, generateAutoSchedule clock p h)"
    by (rule generateAutoSchedule_run)
  from h have "h * 3600 \<le> 0" by (simp add: mult_le_0_iff)
  with run show ?thesis by (rule scheduleLoop_no_budget)
qed


subsection \<open>The loops and the greedy plan\<close>

text \<open>Where every unit has a positive duration, the inner loop takes exactly the units
  the specification's day takes, and the calendar is the specification's plan.\<close>

lemma greedy_plan_no_days [simp]: "greedy_plan clock B vs [] = []"
  by (cases vs) simp_all

lemma day_take_le: "day_take B acc vs \<le> length vs"
  by (induction vs arbitrary: acc) auto

lemma dailyLoop_day_take:
  assumes pos: "\<forall>v\<in>set vids. 0 < duration v"
  shows "dailyLoop vids B i dv dd
           = (i + day_take B dd (drop i vids),
              dv @ map scheduled (take (day_take B dd (drop i vids)) (drop i vids)),
              dd + sum_list (map duration (take (day_take B dd (drop i vids)) (drop i vids))))"
  using pos
proof (induction vids B i dv dd rule: dailyLoop.induct)
  case (1 vids B i dv dd)
  show ?case
  proof (cases "i < length vids")
    case False
    then show ?thesis by (subst dailyLoop.simps) simp
  next
    case True
    then have dr: "drop i vids = vids ! i # drop (Suc i) vids"
      by (simp add: Cons_nth_drop_Suc)
    from True "1.prems" have dpos: "0 < duration (vids ! i)" by simp
    show ?thesis
    proof (cases "of_int (dd + duration (vids ! i)) \<le> B")
      case fit: True
      with dpos have lt: "of_int dd < B" by simp
      from True lt have c1: "i < length vids \<and> of_int dd < B" by simp
      have eq: "dailyLoop vids B i dv dd
        = dailyLoop vids B (i + 1) (dv @ [scheduled (vids ! i)]) (dd + duration (vids ! i))"
        using c1 fit by (subst dailyLoop.simps) (simp add: Let_def)
      note IH = "1.IH" [OF c1 refl fit "1.prems"]
      show ?thesis unfolding eq IH using fit by (simp add: dr)
    next
      case nofit: False
      then have "dailyLoop vids B i dv dd = (i, dv, dd)"
        by (subst dailyLoop.simps) (simp add: Let_def)
      with nofit show ?thesis by (simp add: dr)
    qed
  qed
qed

lemma scheduleLoop_greedy_plan:
  assumes "\<forall>v\<in>set vids. 0 < duration v" and "\<forall>k\<in>fst ` set cal. k < dateStr clock d"
  shows "snd (snd (scheduleLoop clock vids B i d cal))
           = cal @ greedy_plan clock B (drop i vids)
                     (filter (\<lambda>d. getDay clock d \<noteq> 0 \<and> getDay clock d \<noteq> 6) [d ..< 30])"
  using assms
proof (induction clock vids B i d cal rule: scheduleLoop.induct)
  case (1 clock vids B i d cal)
  note pos = "1.prems"(1) and fresh = "1.prems"(2)
  let ?E = "\<lambda>d. getDay clock d \<noteq> 0 \<and> getDay clock d \<noteq> 6"
  show ?case
  proof (cases "i < length vids \<and> d < 30")
    case False
    then have stop: "scheduleLoop clock vids B i d cal = (i, d, cal)"
      by (subst scheduleLoop.simps) auto
    have "greedy_plan clock B (drop i vids) (filter ?E [d ..< 30]) = []"
    proof (cases "i < length vids")
      case True
      with False have "[d ..< 30] = []" by simp
      then show ?thesis by simp
    next
      case False
      then show ?thesis by simp
    qed
    with stop show ?thesis by simp
  next
    case True
    then have upt: "[d ..< 30] = d # [d + 1 ..< 30]" by (simp add: upt_conv_Cons)
    from True obtain v vs where dr: "drop i vids = v # vs"
      by (cases "drop i vids") auto
    have older: "\<forall>k\<in>fst ` set cal. k < dateStr clock (d + 1)"
      using fresh dateStr_less [of clock d "d + 1"] by fastforce
    show ?thesis
    proof (cases "getDay clock d = 0 \<or> getDay clock d = 6")
      case we: True
      have eq: "scheduleLoop clock vids B i d cal = scheduleLoop clock vids B i (d + 1) cal"
        using True we by (subst scheduleLoop.simps) simp
      have flt: "filter ?E [d ..< 30] = filter ?E [d + 1 ..< 30]"
        unfolding upt using we by auto
      show ?thesis unfolding eq flt by (rule "1.IH"(1) [OF True we pos older])
    next
      case wd: False
      let ?n = "day_take B 0 (drop i vids)"
      let ?dv = "map scheduled (take ?n (drop i vids))"
      have dl: "dailyLoop vids B i [] 0
                  = (i + ?n, ?dv, 0 + sum_list (map duration (take ?n (drop i vids))))"
        using dailyLoop_day_take [OF pos, of B i "[]" 0] by simp
      let ?cal = "if length ?dv > 0 then AList.update (dateStr clock d) ?dv cal else cal"
      have eq: "scheduleLoop clock vids B i d cal
                  = scheduleLoop clock vids B (i + ?n) (d + 1) ?cal"
        using True wd dl by (subst scheduleLoop.simps) simp
      have flt: "filter ?E [d ..< 30] = d # filter ?E [d + 1 ..< 30]"
        unfolding upt using wd by auto
      have notin: "dateStr clock d \<notin> fst ` set cal" using fresh by fastforce
      have upd: "AList.update (dateStr clock d) ?dv cal = cal @ [(dateStr clock d, ?dv)]"
        using notin by (rule update_fresh)
      have fresh': "\<forall>k\<in>fst ` set ?cal. k < dateStr clock (d + 1)"
        using older dateStr_less [of clock d "d + 1"] by (auto simp: upd)
      have IH: "snd (snd (scheduleLoop clock vids B (i + ?n) (d + 1) ?cal))
                  = ?cal @ greedy_plan clock B (drop (i + ?n) vids) (filter ?E [d + 1 ..< 30])"
        by (rule "1.IH"(2) [OF True wd dl [symmetric] refl pos fresh'])
      have dd: "drop (i + ?n) vids = drop ?n (drop i vids)" by (simp add: add.commute)
      show ?thesis
      proof (cases "?n = 0")
        case True
        then show ?thesis unfolding eq IH flt dd by (simp add: dr del: day_take.simps)
      next
        case False
        moreover from False have "0 < length ?dv"
          using day_take_le [of B 0 "drop i vids"] by simp
        ultimately show ?thesis unfolding eq IH flt dd
          by (simp add: dr update_fresh [OF notin] Let_def del: day_take.simps)
      qed
    qed
  qed
qed

lemma generateAutoSchedule_greedy_plan:
  assumes "\<forall>v\<in>set (allVideos p). 0 < duration v"
  shows "generateAutoSchedule clock p h
           = greedy_plan clock (h * 3600) (allVideos p) (eligible_days clock)"
  using scheduleLoop_greedy_plan [OF assms, of "[]" clock 0 "h * 3600" 0]
  by (simp add: generateAutoSchedule_def Let_def eligible_days_def)


subsection \<open>Every eligible day is used\<close>

lemma day_fits_first:
  assumes dl: "dailyLoop vids B i [] 0 = (i', dv, dd)" and i: "i < length vids"
    and ne: "dv \<noteq> []"
  shows "of_int (duration (vids ! i)) \<le> B"
proof -
  note day = dailyLoop_day [OF dl i]
  from ne have "0 < (1::nat) \<and> 1 \<le> length dv" by (cases dv) auto
  with day(6) [of 1] have "of_int (sum_list (map duration (take 1 dv))) \<le> B" by simp
  moreover have "take 1 dv = [hd dv]" using ne by (cases dv) auto
  ultimately show ?thesis using day(8) [OF ne] by simp
qed


text \<open>The last entry is full for the unit that follows it.\<close>

lemma scheduleLoop_last_maximal:
  assumes "scheduleLoop clock vids B 0 0 [] = (i, d, cal)"
  shows "cal \<noteq> [] \<and> i < length vids \<longrightarrow>
           \<not> (of_int (sum_list (map duration (snd (last cal)))) < B
              \<and> of_int (sum_list (map duration (snd (last cal))) + duration (vids ! i)) \<le> B)"
proof -
  let ?I = "\<lambda>(i::nat) (d::nat) (cal::calendar). cal \<noteq> [] \<and> i < length vids \<longrightarrow>
           \<not> (of_int (sum_list (map duration (snd (last cal)))) < B
              \<and> of_int (sum_list (map duration (snd (last cal))) + duration (vids ! i)) \<le> B)"
  have "case scheduleLoop clock vids B 0 0 [] of
           (i', d', cal') \<Rightarrow> ?I i' d' cal' \<and> \<not> (i' < length vids \<and> d' < 30)"
  proof (rule scheduleLoop_rule_fresh [where I = ?I])
    show "\<forall>k\<in>fst ` set []. k < dateStr clock 0" by simp
    show "?I 0 0 []" by simp
  next
    fix i d cal i' dv dd
    assume b: "i < length vids"
      and dl: "dailyLoop vids B i [] 0 = (i', dv, dd)" and ne: "dv \<noteq> []"
    note day = dailyLoop_day [OF dl b]
    have "i' < length vids \<longrightarrow>
         \<not> (of_int (sum_list (map duration dv)) < B
            \<and> of_int (sum_list (map duration dv) + duration (vids ! i')) \<le> B)"
      using day(5,7) by blast
    then show "?I i' (d + 1) (cal @ [(dateStr clock d, dv)])" by simp
  qed
  with assms show ?thesis by simp
qed


text \<open>With a positive budget the first entry lies on the first eligible day.\<close>

lemma scheduleLoop_first_day:
  assumes "scheduleLoop clock vids B 0 0 [] = (i, d, cal)" and pos: "0 < B"
  shows "cal \<noteq> [] \<longrightarrow>
           (\<forall>d'. dateStr clock d' < fst (hd cal) \<longrightarrow> getDay clock d' = 0 \<or> getDay clock d' = 6)"
proof -
  let ?W = "\<lambda>d'. getDay clock d' = 0 \<or> getDay clock d' = 6"
  let ?I = "\<lambda>(i::nat) (d::nat) (cal::calendar).
      (cal \<noteq> [] \<longrightarrow> (\<forall>d'. dateStr clock d' < fst (hd cal) \<longrightarrow> ?W d'))
      \<and> (cal = [] \<longrightarrow> (i < length vids \<and> B < of_int (duration (vids ! i)))
                         \<or> (\<forall>d'<d. ?W d'))"
  have "case scheduleLoop clock vids B 0 0 [] of
           (i', d', cal') \<Rightarrow> ?I i' d' cal' \<and> \<not> (i' < length vids \<and> d' < 30)"
  proof (rule scheduleLoop_rule_fresh [where I = ?I])
    show "\<forall>k\<in>fst ` set []. k < dateStr clock 0" by simp
    show "?I 0 0 []" by simp
  next
    fix i d cal
    assume I: "?I i d cal" and we: "?W d"
    have "\<forall>d'<d + 1. ?W d'" if "\<forall>d'<d. ?W d'"
    proof (intro allI impI)
      fix d' assume "d' < d + 1"
      then have "d' < d \<or> d' = d" by auto
      with that we show "?W d'" by blast
    qed
    with I show "?I i (d + 1) cal" by blast
  next
    fix i d cal
    assume I: "?I i d cal" and b: "i < length vids"
      and dl: "dailyLoop vids B i [] 0 = (i, [], 0)"
    from dailyLoop_day(7) [OF dl b b] pos have "B < of_int (duration (vids ! i))" by simp
    with I b show "?I i (d + 1) cal" by simp
  next
    fix i d cal i' dv dd
    assume I: "?I i d cal" and b: "i < length vids"
      and dl: "dailyLoop vids B i [] 0 = (i', dv, dd)" and ne: "dv \<noteq> []"
    note fits = day_fits_first [OF dl b ne]
    show "?I i' (d + 1) (cal @ [(dateStr clock d, dv)])"
    proof (cases "cal = []")
      case True
      with I fits have "\<forall>d'<d. ?W d'" by auto
      with True show ?thesis by (simp add: dateStr_less)
    next
      case False
      with I show ?thesis by simp
    qed
  qed
  with assms(1) show ?thesis by simp
qed


text \<open>With a positive budget the loop ends with units left only when the next unit is
  longer than the budget or no eligible day is left after the last entry.\<close>

lemma scheduleLoop_exhausted:
  assumes "scheduleLoop clock vids B 0 0 [] = (i, d, cal)" and pos: "0 < B"
  shows "i < length vids \<longrightarrow>
           B < of_int (duration (vids ! i))
           \<or> (\<forall>d'<30. getDay clock d' \<noteq> 0 \<and> getDay clock d' \<noteq> 6
                  \<longrightarrow> cal \<noteq> [] \<and> dateStr clock d' \<le> fst (last cal))"
proof -
  let ?E = "\<lambda>d'. getDay clock d' \<noteq> 0 \<and> getDay clock d' \<noteq> 6"
  let ?I = "\<lambda>(i::nat) (d::nat) (cal::calendar).
      (i < length vids \<and> B < of_int (duration (vids ! i)))
      \<or> (\<forall>d'<d. ?E d' \<longrightarrow> cal \<noteq> [] \<and> dateStr clock d' \<le> fst (last cal))"
  have "case scheduleLoop clock vids B 0 0 [] of
           (i', d', cal') \<Rightarrow> ?I i' d' cal' \<and> \<not> (i' < length vids \<and> d' < 30)"
  proof (rule scheduleLoop_rule_fresh [where I = ?I])
    show "\<forall>k\<in>fst ` set []. k < dateStr clock 0" by simp
    show "?I 0 0 []" by simp
  next
    fix i d cal
    assume I: "?I i d cal" and we: "getDay clock d = 0 \<or> getDay clock d = 6"
    have "\<forall>d'<d + 1. ?E d' \<longrightarrow> cal \<noteq> [] \<and> dateStr clock d' \<le> fst (last cal)"
      if old: "\<forall>d'<d. ?E d' \<longrightarrow> cal \<noteq> [] \<and> dateStr clock d' \<le> fst (last cal)"
    proof (intro allI impI)
      fix d' assume "d' < d + 1" and e: "?E d'"
      then have "d' < d \<or> d' = d" by auto
      with we e have "d' < d" by auto
      with old e show "cal \<noteq> [] \<and> dateStr clock d' \<le> fst (last cal)" by blast
    qed
    with I show "?I i (d + 1) cal" by blast
  next
    fix i d cal
    assume b: "i < length vids" and dl: "dailyLoop vids B i [] 0 = (i, [], 0)"
    from dailyLoop_day(7) [OF dl b b] pos have "B < of_int (duration (vids ! i))" by simp
    with b show "?I i (d + 1) cal" by simp
  next
    fix i d :: nat and cal :: calendar and i' :: nat and dv :: "CalendarEvent list" and dd :: int
    assume ne: "dv \<noteq> []"
    have "dateStr clock d' \<le> dateStr clock d" if "d' < d + 1" for d'
      using that dateStr_offset [of clock d] dateStr_offset [of clock d'] by simp
    then have "\<forall>d'<d + 1. ?E d' \<longrightarrow> cal @ [(dateStr clock d, dv)] \<noteq> []
              \<and> dateStr clock d' \<le> fst (last (cal @ [(dateStr clock d, dv)]))"
      by simp
    then show "?I i' (d + 1) (cal @ [(dateStr clock d, dv)])" by blast
  qed
  with assms(1) have inv: "?I i d cal" and stop: "\<not> (i < length vids \<and> d < 30)"
    by simp_all
  show ?thesis
  proof (intro impI)
    assume left: "i < length vids"
    with stop have d: "30 \<le> d" by simp
    show "B < of_int (duration (vids ! i))
           \<or> (\<forall>d'<30. ?E d' \<longrightarrow> cal \<noteq> [] \<and> dateStr clock d' \<le> fst (last cal))"
    proof (cases "B < of_int (duration (vids ! i))")
      case True
      then show ?thesis by simp
    next
      case False
      with inv have all: "\<forall>d'<d. ?E d' \<longrightarrow> cal \<noteq> [] \<and> dateStr clock d' \<le> fst (last cal)"
        by blast
      have "cal \<noteq> [] \<and> dateStr clock d' \<le> fst (last cal)" if "d' < 30" "?E d'" for d'
      proof -
        from that(1) d have "d' < d" by simp
        with all that(2) show ?thesis by blast
      qed
      then show ?thesis by blast
    qed
  qed
qed


text \<open>A unit that fits an empty day, with an eligible day left after the entries before
  it, heads the next entry.\<close>

lemma scheduleLoop_placed:
  assumes run: "scheduleLoop clock vids B 0 0 [] = (i, d, cal)" and pos: "0 < B"
    and j: "j \<le> length cal"
    and m: "m = length (concat (map snd (take j cal)))"
    and left: "m < length vids" and fits: "of_int (duration (vids ! m)) \<le> B"
    and day: "d' < 30" "getDay clock d' \<noteq> 0 \<and> getDay clock d' \<noteq> 6"
             "\<forall>k\<in>fst ` set (take j cal). k < dateStr clock d'"
  shows "j < length cal \<and> hd (snd (cal ! j)) = scheduled (vids ! m)"
proof -
  note pre = scheduleLoop_prefix [OF run]
  have n: "length (concat (map snd cal)) = i" using pre by simp
  have jlt: "j < length cal"
  proof (rule ccontr)
    assume "\<not> j < length cal"
    with j have all: "take j cal = cal" by simp
    with m n have "m = i" by simp
    with left fits scheduleLoop_exhausted [OF run pos] day(1,2)
    have "cal \<noteq> [] \<and> dateStr clock d' \<le> fst (last cal)" by auto
    moreover from this have "fst (last cal) \<in> fst ` set cal" by simp
    ultimately show False using day(3) all by fastforce
  qed
  have split: "cal = take j cal @ cal ! j # drop (Suc j) cal"
    using jlt by (rule id_take_nth_drop)
  have ne: "snd (cal ! j) \<noteq> []"
    using scheduleLoop_entries [OF run] jlt nth_mem [OF jlt] by (cases "cal ! j") auto
  have cc: "concat (map snd cal)
              = concat (map snd (take j cal)) @ snd (cal ! j) @ concat (map snd (drop (Suc j) cal))"
    by (subst split) simp
  have "concat (map snd cal) ! m = (snd (cal ! j) @ concat (map snd (drop (Suc j) cal))) ! 0"
    unfolding cc using m by (simp add: nth_append)
  also have "\<dots> = hd (snd (cal ! j))" using ne by (cases "snd (cal ! j)") auto
  finally have a: "concat (map snd cal) ! m = hd (snd (cal ! j))" .
  have "m < length (concat (map snd cal))"
    using ne m by (subst cc) simp
  with n have mi: "m < i" by simp
  with pre have "concat (map snd cal) ! m = scheduled (vids ! m)" by simp
  with a jlt show ?thesis by simp
qed


subsection \<open>C3: the daily budget is not validated\<close>

text \<open>
  Claim C3, as amended. The merge handler never rejects a request for its
  \<open>daily_study_hours\<close>: it answers with status 200. It calls the scheduler exactly
  when \<open>schedule_mode\<close> is \<open>auto\<close> and \<open>calendar_view\<close> is set; an absent value and
  zero are replaced by 1.0, and every other number, a negative one included, is passed
  on as it is. Called with a budget that is not positive, the scheduler returns an
  empty calendar.
\<close>

theorem C3_budget_not_validated:
  "status (fst (merge_handler clock storage req)) = 200
   \<and> schedule_call req
       = (if schedule_mode req = ''auto'' \<and> calendar_view req
          then Some (case daily_study_hours req of
                       None \<Rightarrow> 1 | Some h \<Rightarrow> if h = 0 then 1 else h)
          else None)
   \<and> calendar (merged_roadmap (body (fst (merge_handler clock storage req))))
       = map_option
           (generateAutoSchedule clock
              (preview (merge_preview (validRoadmaps storage (roadmap_ids req)))))
           (schedule_call req)
   \<and> (dailyHours \<le> 0 \<longrightarrow> generateAutoSchedule clock p dailyHours = [])"
  using generateAutoSchedule_no_budget [of dailyHours clock p]
  by (simp add: merge_handler_status merge_handler_calendar schedule_call_def hours_or_default_def)

theorem C3_budget_not_validated_witness:
  "(- 1 :: rat) \<le> 0
   \<and> schedule_call req_negative = Some (- 1)
   \<and> status (fst (merge_handler clock_utc sample_storage req_negative)) = 200
   \<and> calendar (merged_roadmap (body (fst (merge_handler clock_utc sample_storage req_negative))))
       = Some []"
  using C3_budget_not_validated [of clock_utc sample_storage req_negative "- 1"
          "preview (merge_preview (validRoadmaps sample_storage (roadmap_ids req_negative)))"]
  by (simp add: req_negative_def)


text \<open>The claim as it was stated fails: a request with \<open>daily_study_hours = -1\<close> is not
  answered with a client error, and the scheduler is called with \<open>-1\<close>.\<close>

theorem C3_counterexample:
  "the (daily_study_hours req_negative) \<le> 0
   \<and> \<not> client_error (fst (merge_handler clock_utc sample_storage req_negative))
   \<and> schedule_call req_negative = Some (- 1)"
  by (simp add: client_error_def merge_handler_status schedule_call_def hours_or_default_def
        req_negative_def)


subsection \<open>C5: greedy packing within the daily budget\<close>

text \<open>
  Claim C5. For every preview, clock and positive daily budget, with \<open>cal\<close> the calendar,
  \<open>vids\<close> the sorted units and \<open>B = dailyHours * 3600\<close>:
  \<^item> the entries of the calendar, read in order, list a prefix of the sorted units, each
    unit once and whole;
  \<^item> the dates are distinct;
  \<^item> every entry is non-empty, each of its units was added while the accumulated
    duration with that unit was at most \<open>B\<close>, and so the total of an entry is at most
    \<open>B\<close>;
  \<^item> the first unit of an entry did not fit into the entry before it;
  \<^item> between the days of two consecutive entries there are only weekend days;
  \<^item> every key is the date of an eligible day among the 30 days;
  \<^item> no eligible day lies before the first entry;
  \<^item> placement: whenever the unit that follows the first \<open>j\<close> entries fits an empty
    day and an eligible day is left after those entries, the calendar has a further
    entry and that unit is its first unit (for \<open>j = 0\<close>: the first eligible day is
    used; for \<open>j > 0\<close>: a unit that overflowed an entry is placed on the next eligible
    day);
  \<^item> the last entry is full for the first unit left out;
  \<^item> where every unit has a positive duration, the calendar is exactly the greedy plan
    of the specification over the eligible days.
\<close>

theorem C5_greedy_packing:
  fixes clock :: Clock and p :: Preview and dailyHours :: rat
  defines "cal \<equiv> generateAutoSchedule clock p dailyHours"
    and "vids \<equiv> allVideos p"
    and "B \<equiv> dailyHours * 3600"
  assumes pos: "0 < dailyHours"
  shows "(\<exists>n\<le>length vids. concat (map snd cal) = map scheduled (take n vids))
    \<and> distinct (map fst cal)
    \<and> (\<forall>(k, evs)\<in>set cal.
          evs \<noteq> []
          \<and> (\<forall>m. 0 < m \<and> m \<le> length evs \<longrightarrow>
                 of_int (sum_list (map duration (take m evs))) \<le> B)
          \<and> of_int (sum_list (map duration evs)) \<le> B)
    \<and> successively
          (\<lambda>a b. \<not> (of_int (sum_list (map duration (snd a))) < B
                     \<and> of_int (sum_list (map duration (snd a)) + duration (hd (snd b))) \<le> B))
          cal
    \<and> successively
          (\<lambda>a b. \<forall>d1 d2 d'. fst a = dateStr clock d1 \<and> fst b = dateStr clock d2
                      \<and> d1 < d' \<and> d' < d2
                    \<longrightarrow> getDay clock d' = 0 \<or> getDay clock d' = 6)
          cal
    \<and> (\<forall>k\<in>fst ` set cal. \<exists>d<30. k = dateStr clock d
            \<and> getDay clock d \<noteq> 0 \<and> getDay clock d \<noteq> 6)
    \<and> (cal \<noteq> [] \<longrightarrow>
          (\<forall>d. dateStr clock d < fst (hd cal) \<longrightarrow> getDay clock d = 0 \<or> getDay clock d = 6))
    \<and> (\<forall>j d. j \<le> length cal
            \<and> length (concat (map snd (take j cal))) < length vids
            \<and> of_int (duration (vids ! length (concat (map snd (take j cal))))) \<le> B
            \<and> d < 30 \<and> getDay clock d \<noteq> 0 \<and> getDay clock d \<noteq> 6
            \<and> (\<forall>k\<in>fst ` set (take j cal). k < dateStr clock d)
          \<longrightarrow> j < length cal
              \<and> hd (snd (cal ! j)) = scheduled (vids ! length (concat (map snd (take j cal)))))
    \<and> (cal \<noteq> [] \<and> length (concat (map snd cal)) < length vids \<longrightarrow>
          \<not> (of_int (sum_list (map duration (snd (last cal)))) < B
             \<and> of_int (sum_list (map duration (snd (last cal)))
                        + duration (vids ! length (concat (map snd cal)))) \<le> B))
    \<and> ((\<forall>v\<in>set vids. 0 < duration v) \<longrightarrow>
          cal = greedy_plan clock B vids (eligible_days clock))"
proof -
  obtain i d where run: "scheduleLoop clock vids B 0 0 [] = (i, d, cal)"
    unfolding cal_def vids_def B_def by (rule generateAutoSchedule_run)
  from pos have B: "0 < B" by (simp add: B_def)
  note pre = scheduleLoop_prefix [OF run]
  have n: "length (concat (map snd cal)) = i" using pre by simp
  have 1: "\<exists>n\<le>length vids. concat (map snd cal) = map scheduled (take n vids)"
    using pre by blast
  have 2: "distinct (map fst cal)"
    using scheduleLoop_length [OF run] by blast
  have ent: "evs \<noteq> []
          \<and> (\<forall>m. 0 < m \<and> m \<le> length evs \<longrightarrow>
                 of_int (sum_list (map duration (take m evs))) \<le> B)
          \<and> of_int (sum_list (map duration evs)) \<le> B"
    if "(k, evs) \<in> set cal" for k evs
  proof -
    from that scheduleLoop_entries [OF run]
    have ne: "evs \<noteq> []"
      and all: "\<forall>m. 0 < m \<and> m \<le> length evs \<longrightarrow>
                  of_int (sum_list (map duration (take m evs))) \<le> B" by auto
    from ne have "0 < length evs" by simp
    with all have "of_int (sum_list (map duration (take (length evs) evs))) \<le> B"
      by blast
    then have "of_int (sum_list (map duration evs)) \<le> B" by simp
    with ne all show ?thesis by blast
  qed
  have 3: "\<forall>(k, evs)\<in>set cal.
          evs \<noteq> []
          \<and> (\<forall>m. 0 < m \<and> m \<le> length evs \<longrightarrow>
                 of_int (sum_list (map duration (take m evs))) \<le> B)
          \<and> of_int (sum_list (map duration evs)) \<le> B"
    using ent by blast
  note 4 = scheduleLoop_greedy [OF run]
  note 5 = scheduleLoop_next_day [OF run B]
  have 6: "\<forall>k\<in>fst ` set cal. \<exists>d<30. k = dateStr clock d
            \<and> getDay clock d \<noteq> 0 \<and> getDay clock d \<noteq> 6"
    using scheduleLoop_keys [OF run] by blast
  note 7 = scheduleLoop_first_day [OF run B]
  have 8: "\<forall>j d. j \<le> length cal
            \<and> length (concat (map snd (take j cal))) < length vids
            \<and> of_int (duration (vids ! length (concat (map snd (take j cal))))) \<le> B
            \<and> d < 30 \<and> getDay clock d \<noteq> 0 \<and> getDay clock d \<noteq> 6
            \<and> (\<forall>k\<in>fst ` set (take j cal). k < dateStr clock d)
          \<longrightarrow> j < length cal
              \<and> hd (snd (cal ! j)) = scheduled (vids ! length (concat (map snd (take j cal))))"
  proof (intro allI impI)
    fix j d'
    assume h: "j \<le> length cal
            \<and> length (concat (map snd (take j cal))) < length vids
            \<and> of_int (duration (vids ! length (concat (map snd (take j cal))))) \<le> B
            \<and> d' < 30 \<and> getDay clock d' \<noteq> 0 \<and> getDay clock d' \<noteq> 6
            \<and> (\<forall>k\<in>fst ` set (take j cal). k < dateStr clock d')"
    then have a: "j \<le> length cal"
      and b: "length (concat (map snd (take j cal))) < length vids"
      and c: "of_int (duration (vids ! length (concat (map snd (take j cal))))) \<le> B"
      and e: "d' < 30" "getDay clock d' \<noteq> 0 \<and> getDay clock d' \<noteq> 6"
             "\<forall>k\<in>fst ` set (take j cal). k < dateStr clock d'"
      by blast+
    show "j < length cal
              \<and> hd (snd (cal ! j)) = scheduled (vids ! length (concat (map snd (take j cal))))"
      by (rule scheduleLoop_placed [OF run B a refl b c e])
  qed
  have 9: "cal \<noteq> [] \<and> length (concat (map snd cal)) < length vids \<longrightarrow>
          \<not> (of_int (sum_list (map duration (snd (last cal)))) < B
             \<and> of_int (sum_list (map duration (snd (last cal)))
                        + duration (vids ! length (concat (map snd cal)))) \<le> B)"
    using scheduleLoop_last_maximal [OF run] unfolding n .
  have 10: "(\<forall>v\<in>set vids. 0 < duration v) \<longrightarrow>
          cal = greedy_plan clock B vids (eligible_days clock)"
    unfolding cal_def vids_def B_def using generateAutoSchedule_greedy_plan by blast
  from 1 2 3 4 5 6 7 8 9 10 show ?thesis by (intro conjI)
qed

text \<open>At the scenario of the specification the theorem itself gives that the calendar is
  not empty and starts with the first unit, and that it is the specification's plan; the
  calendar is the first two units on Friday and the third on Monday.\<close>

theorem C5_greedy_packing_witness:
  "(0::rat) < 1
   \<and> generateAutoSchedule clock_utc p_three 1 =
       [(20763, [scheduled (tagged ''Basics'' (video ''a'' 1800 True)),
                 scheduled (tagged ''Basics'' (video ''b'' 1800 True))]),
        (20766, [scheduled (tagged ''Basics'' (video ''c'' 1800 True))])]
   \<and> distinct (map fst (generateAutoSchedule clock_utc p_three 1))
   \<and> 0 < length (generateAutoSchedule clock_utc p_three 1)
   \<and> hd (snd (generateAutoSchedule clock_utc p_three 1 ! 0)) = scheduled (allVideos p_three ! 0)
   \<and> generateAutoSchedule clock_utc p_three 1
       = greedy_plan clock_utc (1 * 3600) (allVideos p_three) (eligible_days clock_utc)"
proof -
  have pos: "(0::rat) < 1" by simp
  have cal: "generateAutoSchedule clock_utc p_three 1 =
       [(20763, [scheduled (tagged ''Basics'' (video ''a'' 1800 True)),
                 scheduled (tagged ''Basics'' (video ''b'' 1800 True))]),
        (20766, [scheduled (tagged ''Basics'' (video ''c'' 1800 True))])]"
    by code_simp
  have vids: "allVideos p_three =
     [tagged ''Basics'' (video ''a'' 1800 True), tagged ''Basics'' (video ''b'' 1800 True),
      tagged ''Basics'' (video ''c'' 1800 True)]"
    by (simp add: allVideos_def sort_core_first flatVideos_def p_three_def preview_of_def
          branch_def video_def tagged_def)
  have durs: "\<forall>v\<in>set (allVideos p_three). 0 < duration v"
    by (simp add: vids video_def)
  have friday: "getDay clock_utc 0 \<noteq> 0 \<and> getDay clock_utc 0 \<noteq> 6"
    by code_simp
  note inst = C5_greedy_packing [where dailyHours = 1 and clock = clock_utc and p = p_three,
      OF pos]
  from inst have "distinct (map fst (generateAutoSchedule clock_utc p_three 1))" by blast
  moreover from inst durs
  have "generateAutoSchedule clock_utc p_three 1
       = greedy_plan clock_utc (1 * 3600) (allVideos p_three) (eligible_days clock_utc)"
    by blast
  moreover from inst have "\<forall>j d. j \<le> length (generateAutoSchedule clock_utc p_three 1)
            \<and> length (concat (map snd (take j (generateAutoSchedule clock_utc p_three 1))))
                < length (allVideos p_three)
            \<and> of_int (duration (allVideos p_three
                  ! length (concat (map snd (take j (generateAutoSchedule clock_utc p_three 1))))))
                \<le> (1::rat) * 3600
            \<and> d < 30 \<and> getDay clock_utc d \<noteq> 0 \<and> getDay clock_utc d \<noteq> 6
            \<and> (\<forall>k\<in>fst ` set (take j (generateAutoSchedule clock_utc p_three 1)).
                   k < dateStr clock_utc d)
          \<longrightarrow> j < length (generateAutoSchedule clock_utc p_three 1)
              \<and> hd (snd (generateAutoSchedule clock_utc p_three 1 ! j))
                  = scheduled (allVideos p_three
                      ! length (concat (map snd (take j (generateAutoSchedule clock_utc p_three 1)))))"
    by blast
  from this [rule_format, of 0 0] friday
  have "0 < length (generateAutoSchedule clock_utc p_three 1)
   \<and> hd (snd (generateAutoSchedule clock_utc p_three 1 ! 0)) = scheduled (allVideos p_three ! 0)"
    by (simp add: vids video_def tagged_def)
  ultimately show ?thesis using pos cal by blast
qed

subsection \<open>C7: weekend dates\<close>

text \<open>
  Claim C7 at a failing input. The loop skips a day by its weekday in local time but
  names the entry by the date in UTC. On a machine five hours behind UTC, at 20:00 on
  Friday 2026-11-06 (01:00 UTC on Saturday), the first day visited is a Friday and is
  not skipped, and its entry is keyed 2026-11-07 (day 20764), a Saturday.
\<close>

theorem C7_weekend_key:
  "getDay clock_ny 0 = 5
   \<and> map fst (generateAutoSchedule clock_ny p_three 1) = [20764, 20767]
   \<and> weekday 20764 = 6"
  by code_simp


text \<open>Where local time is UTC no key is a Saturday or a Sunday.\<close>

lemma keys_not_weekend_utc:
  assumes "utc_offset_min clock = 0"
  shows "\<forall>k\<in>fst ` set (generateAutoSchedule clock p h). weekday k \<noteq> 0 \<and> weekday k \<noteq> 6"
proof
  fix k assume k: "k \<in> fst ` set (generateAutoSchedule clock p h)"
  obtain i d where run:
    "scheduleLoop clock (allVideos p) (h * 3600) 0 0 [] = (i, d, generateAutoSchedule clock p h)"
    by (rule generateAutoSchedule_run)
  from k scheduleLoop_keys [OF run] obtain d' where
    "k = dateStr clock d'" "getDay clock d' \<noteq> 0" "getDay clock d' \<noteq> 6" by blast
  moreover have "local_day clock d' = dateStr clock d'"
    using assms by (simp add: local_day_def dateStr_def)
  ultimately show "weekday k \<noteq> 0 \<and> weekday k \<noteq> 6" by (simp add: getDay_def)
qed


subsection \<open>C8: the cap of 30 days\<close>

text \<open>
  Claim C8. For a daily budget that is not negative and a preview whose units last
  longer in total than \<open>30 * dailyHours * 3600\<close> seconds, the calendar has at most 30
  entries, with distinct dates within the 30 days from the start; it holds exactly the
  first \<open>n\<close> sorted units for some \<open>n\<close> smaller than their number, so some units
  are left out; and every entry has at least one unit.
\<close>

theorem C8_day_cap:
  assumes nonneg: "0 \<le> dailyHours"
    and over: "30 * (dailyHours * 3600)
                 < of_int (sum_list (map duration (concat (map videos (p_branches p)))))"
  shows "length (generateAutoSchedule clock p dailyHours) \<le> 30
    \<and> distinct (map fst (generateAutoSchedule clock p dailyHours))
    \<and> (\<forall>k\<in>fst ` set (generateAutoSchedule clock p dailyHours).
           dateStr clock 0 \<le> k \<and> k < dateStr clock 0 + 30)
    \<and> (\<exists>n<length (allVideos p).
           concat (map snd (generateAutoSchedule clock p dailyHours))
             = map scheduled (take n (allVideos p)))
    \<and> (\<forall>(k, evs)\<in>set (generateAutoSchedule clock p dailyHours). evs \<noteq> [])"
proof -
  obtain i d where run:
    "scheduleLoop clock (allVideos p) (dailyHours * 3600) 0 0 []
       = (i, d, generateAutoSchedule clock p dailyHours)"
    by (rule generateAutoSchedule_run)
  from nonneg have B: "0 \<le> dailyHours * 3600" by simp
  note len = scheduleLoop_length [OF run]
  have keys: "dateStr clock 0 \<le> k \<and> k < dateStr clock 0 + 30"
    if "k \<in> fst ` set (generateAutoSchedule clock p dailyHours)" for k
  proof -
    from that scheduleLoop_keys [OF run] obtain d' where "d' < 30" "k = dateStr clock d'"
      by blast
    then show ?thesis using dateStr_offset [of clock d'] by simp
  qed
  note pre = scheduleLoop_prefix [OF run]
  have "i \<noteq> length (allVideos p)"
  proof
    assume "i = length (allVideos p)"
    with scheduleLoop_capacity [OF run B]
    have "of_int (sum_list (map duration (allVideos p))) \<le> 30 * (dailyHours * 3600)" by simp
    with over show False by (simp add: sum_list_allVideos)
  qed
  with pre have "i < length (allVideos p)" by simp
  with pre have unsched: "\<exists>n<length (allVideos p).
           concat (map snd (generateAutoSchedule clock p dailyHours))
             = map scheduled (take n (allVideos p))" by blast
  have ne: "\<forall>(k, evs)\<in>set (generateAutoSchedule clock p dailyHours). evs \<noteq> []"
    using scheduleLoop_entries [OF run] by blast
  from len keys unsched ne show ?thesis by blast
qed

theorem C8_day_cap_witness:
  "(0::rat) \<le> 1 / 2
   \<and> 30 * ((1 / 2) * 3600)
        < rat_of_int (sum_list (map duration (concat (map videos (p_branches p_big)))))
   \<and> length (generateAutoSchedule clock_utc p_big (1 / 2)) \<le> 30
   \<and> (\<exists>n<length (allVideos p_big).
           concat (map snd (generateAutoSchedule clock_utc p_big (1 / 2)))
             = map scheduled (take n (allVideos p_big)))"
proof -
  have h1: "(0::rat) \<le> 1 / 2" by simp
  have h2: "30 * ((1 / 2) * 3600)
        < rat_of_int (sum_list (map duration (concat (map videos (p_branches p_big)))))"
    by (simp add: p_big_def preview_of_def branch_def video_def)
  from C8_day_cap [OF h1 h2, of clock_utc] h1 h2 show ?thesis by blast
qed


subsection \<open>C10: a unit longer than the daily budget\<close>

text \<open>
  Claim C10, as amended. If the sorted units contain, at position \<open>j\<close>, a unit whose
  duration exceeds \<open>dailyHours * 3600\<close>, and no unit before it has a negative
  duration, then the calendar holds only units from before position \<open>j\<close>: that unit
  and every unit after it are absent, whatever their durations, and the loop runs until
  the day offset reaches 30.
\<close>

theorem C10_oversized_unit_blocks:
  assumes "j < length (allVideos p)"
    and "dailyHours * 3600 < of_int (duration (allVideos p ! j))"
    and "\<forall>m<j. 0 \<le> duration (allVideos p ! m)"
  shows "(\<exists>n\<le>j. concat (map snd (generateAutoSchedule clock p dailyHours))
                    = map scheduled (take n (allVideos p)))
    \<and> fst (snd (scheduleLoop clock (allVideos p) (dailyHours * 3600) 0 0 [])) = 30"
proof -
  obtain i d where run:
    "scheduleLoop clock (allVideos p) (dailyHours * 3600) 0 0 []
       = (i, d, generateAutoSchedule clock p dailyHours)"
    by (rule generateAutoSchedule_run)
  from scheduleLoop_stuck [OF run assms] have "i \<le> j" "d = 30" by simp_all
  with scheduleLoop_prefix [OF run] run show ?thesis by auto
qed

theorem C10_oversized_unit_blocks_witness:
  "1 < length (allVideos p_blocked)
   \<and> (1::rat) * 3600 < of_int (duration (allVideos p_blocked ! 1))
   \<and> 0 \<le> duration (allVideos p_blocked ! 0)
   \<and> (\<exists>n\<le>1. concat (map snd (generateAutoSchedule clock_utc p_blocked 1))
                    = map scheduled (take n (allVideos p_blocked)))"
proof -
  have vids: "allVideos p_blocked =
     [tagged ''Basics'' (video ''a'' 1800 True), tagged ''Basics'' (video ''b'' 5400 True),
      tagged ''Basics'' (video ''c'' 1800 True)]"
    by (simp add: allVideos_def sort_core_first flatVideos_def p_blocked_def preview_of_def
          branch_def video_def tagged_def)
  have h1: "1 < length (allVideos p_blocked)" by (simp add: vids)
  have h2: "(1::rat) * 3600 < of_int (duration (allVideos p_blocked ! 1))"
    by (simp add: vids video_def)
  have h0: "0 \<le> duration (allVideos p_blocked ! 0)" by (simp add: vids video_def)
  then have h3: "\<forall>m<1. 0 \<le> duration (allVideos p_blocked ! m)" by simp
  from C10_oversized_unit_blocks [OF h1 h2 h3, of clock_utc] h1 h2 h0 show ?thesis by blast
qed


text \<open>The claim as it was stated fails when an earlier unit has a negative duration:
  after a unit of \<open>-1800\<close> seconds a unit of 5400 seconds is placed on a day of 3600
  seconds.\<close>

theorem C10_counterexample:
  "(0::rat) < 1
   \<and> (1::rat) * 3600 < of_int (duration (allVideos p_negative ! 1))
   \<and> concat (map snd (generateAutoSchedule clock_utc p_negative 1))
       = map scheduled (take 2 (allVideos p_negative))
   \<and> scheduled (allVideos p_negative ! 1)
       \<in> set (concat (map snd (generateAutoSchedule clock_utc p_negative 1)))"
  by code_simp


end
